theory Spec2Isabelle
  imports Complex_Main "HOL-Library.List_Lexorder" "HOL-Library.Char_ord"
begin

section \<open>Record model\<close>

text \<open>
  A \<^verbatim>\<open>RequirementObject\<close> as the analyzers read it. The fields \<^verbatim>\<open>title\<close>,
  \<^verbatim>\<open>description\<close>, \<^verbatim>\<open>level\<close> and \<^verbatim>\<open>location.line\<close> are never read by the
  functions embedded below and are left out. Identifiers and tags are byte strings;
  \<^verbatim>\<open>links\<close> and \<^verbatim>\<open>metadata\<close> are JavaScript objects, kept as association lists in
  insertion order (the order \<^verbatim>\<open>Object.entries\<close> and \<^verbatim>\<open>Object.values\<close> walk for keys that
  are not array indices), with one entry per key.
\<close>

record RequirementObject =
  req_id :: string
  req_type :: string
  req_status :: "string option"
  links :: "(string \<times> string list) list"
  metadata :: "(string \<times> string) list"
  location_file :: string
  baseline :: "string option"

datatype ValidationSeverity = BLOCKER | HIGH | MEDIUM | LOW | INFO

text \<open>\<^verbatim>\<open>x || d\<close> on an optional string: \<^verbatim>\<open>undefined\<close> and the empty string are falsy.\<close>

definition orElse :: "string option \<Rightarrow> string \<Rightarrow> string" where
  "orElse v d = (case v of None \<Rightarrow> d | Some s \<Rightarrow> if s = [] then d else s)"

text \<open>\<^verbatim>\<open>req.metadata.priority || 'medium'\<close>\<close>

definition priorityOrMedium :: "RequirementObject \<Rightarrow> string" where
  "priorityOrMedium req = orElse (map_of (metadata req) ''priority'') ''medium''"

text \<open>\<^verbatim>\<open>String.prototype.toLowerCase\<close>, on ASCII letters.\<close>

definition lowerChar :: "char \<Rightarrow> char" where
  "lowerChar c = (if CHR ''A'' \<le> c \<and> c \<le> CHR ''Z'' then char_of (of_char c + (32::nat)) else c)"

definition toLowerCase :: "string \<Rightarrow> string" where
  "toLowerCase s = map lowerChar s"

text \<open>
  A JavaScript \<^verbatim>\<open>Set\<close> of strings, as the list of its members in insertion order
  (the order \<^verbatim>\<open>Array.from\<close> and \<^verbatim>\<open>for ... of\<close> walk).
\<close>

definition set_add :: "string list \<Rightarrow> string \<Rightarrow> string list" where
  "set_add s x = (if x \<in> set s then s else s @ [x])"

definition set_add_all :: "string list \<Rightarrow> string list \<Rightarrow> string list" where
  "set_add_all s xs = foldl set_add s xs"

section \<open>Helpers of deepValidation.ts\<close>

text \<open>
  Modelled from the spec: \<^verbatim>\<open>getRequirementById\<close>, \<^verbatim>\<open>getAllOutgoingLinks\<close> and
  \<^verbatim>\<open>getTypePrefix\<close> are exported by deepValidation.ts, which is not among the sources;
  only their callers and tests are. The lookup returns the first record with the id
  (as the \<^verbatim>\<open>requirements.find(r => r.id === targetId)\<close> of the coverage analyzer does), the
  outgoing links are the targets of every link type (``any outgoing link across all
  types''), and the type prefix is the leading run of letters of the id (its tests:
  \<^verbatim>\<open>REQ001\<close> and \<^verbatim>\<open>REQ_001\<close> give \<^verbatim>\<open>REQ\<close>, \<^verbatim>\<open>123\<close> and the empty id give the empty prefix).
\<close>

definition getRequirementById :: "RequirementObject list \<Rightarrow> string \<Rightarrow> RequirementObject option" where
  "getRequirementById requirements i = find (\<lambda>r. req_id r = i) requirements"

definition getAllOutgoingLinks :: "RequirementObject \<Rightarrow> string list" where
  "getAllOutgoingLinks req = concat (map snd (links req))"

definition isLetter :: "char \<Rightarrow> bool" where
  "isLetter c = ((CHR ''A'' \<le> c \<and> c \<le> CHR ''Z'') \<or> (CHR ''a'' \<le> c \<and> c \<le> CHR ''z''))"

definition getTypePrefix :: "string \<Rightarrow> string" where
  "getTypePrefix i = takeWhile isLetter i"

section \<open>Configuration\<close>

text \<open>
  \<^verbatim>\<open>DeepValidationConfig\<close>, with the fields the analyzers read. Thresholds are
  percentages (JavaScript numbers). The entries of \<^verbatim>\<open>hierarchicalCoverage\<close> and
  \<^verbatim>\<open>priorityWeightedCoverage\<close> are keyed by link type and by priority.
\<close>

record CycleSeverityConfig =
  length2 :: ValidationSeverity
  length3_5 :: ValidationSeverity
  length6plus :: ValidationSeverity

record OrphanSeverityConfig =
  os_critical :: ValidationSeverity
  os_high :: ValidationSeverity
  os_medium :: ValidationSeverity
  os_low :: ValidationSeverity

record LinkCoverageConfig =
  lc_fromTypes :: "string list"
  lc_toTypes :: "string list"
  lc_threshold :: real

record StatusConsistencyConfig =
  enforceApprovedChain :: bool
  enforceImplementedChain :: bool

record BaselineStabilityConfig =
  requireApproved :: bool
  requireDownstreamBaselined :: bool

record DeepValidationConfig =
  cycleSeverity :: CycleSeverityConfig
  orphanSeverity :: OrphanSeverityConfig
  hierarchicalCoverage :: "(string \<times> LinkCoverageConfig) list"
  priorityWeightedCoverage :: "(string \<times> real) list"
  statusConsistency :: StatusConsistencyConfig
  baselineStability :: BaselineStabilityConfig

section \<open>Completeness tracer (completenessAnalyzer.ts)\<close>

record IncompleteChain =
  ic_startId :: string
  ic_expectedPath :: "string list"
  ic_actualPath :: "string list"
  ic_missingLinks :: "string list"
  ic_severity :: ValidationSeverity

text \<open>The arrow U+2192 of the \<^verbatim>\<open>missingLinks\<close> entries, in UTF-8.\<close>

definition arrow :: string where
  "arrow = [CHR 0xE2, CHR 0x86, CHR 0x92]"

text \<open>
  The inner loops of \<^verbatim>\<open>traceChain\<close>: the targets, of the expected type, of the links
  that leave the current level; \<^verbatim>\<open>foundTargets\<close> is a \<^verbatim>\<open>Set\<close>.
\<close>

definition foundTargets :: "RequirementObject list \<Rightarrow> string list \<Rightarrow> string \<Rightarrow> string list" where
  "foundTargets requirements currentReqs targetType =
     set_add_all []
       (concat (map (\<lambda>reqId.
          case getRequirementById requirements reqId of
            None \<Rightarrow> []
          | Some req \<Rightarrow>
              filter (\<lambda>targetId.
                 case getRequirementById requirements targetId of
                   None \<Rightarrow> False
                 | Some target \<Rightarrow> getTypePrefix (req_id target) = targetType)
                (getAllOutgoingLinks req))
          currentReqs))"

text \<open>
  The loop \<^verbatim>\<open>for (let i = 1; i < expectedChain.length; i++)\<close> of \<^verbatim>\<open>traceChain\<close>, over
  the types that remain; \<open>prevType\<close> is \<^verbatim>\<open>expectedChain[i - 1]\<close>. The state is
  \<^verbatim>\<open>actualPath\<close>, \<^verbatim>\<open>missingLinks\<close> and \<^verbatim>\<open>currentReqs\<close>; the \<^verbatim>\<open>break\<close> leaves the loop.
\<close>

fun traceLoop :: "RequirementObject list \<Rightarrow> string \<Rightarrow> string list \<Rightarrow>
    string list \<Rightarrow> string list \<Rightarrow> string list \<Rightarrow> string list \<times> string list" where
  "traceLoop requirements prevType [] actualPath missingLinks currentReqs =
     (actualPath, missingLinks)"
| "traceLoop requirements prevType (targetType # rest) actualPath missingLinks currentReqs =
     (let found = foundTargets requirements currentReqs targetType in
      if length found > 0
      then traceLoop requirements targetType rest (actualPath @ [targetType]) missingLinks found
      else (actualPath, missingLinks @ [prevType @ arrow @ targetType]))"

definition traceChain :: "RequirementObject list \<Rightarrow> string \<Rightarrow> string list \<Rightarrow>
    string list \<times> string list" where
  "traceChain requirements startId expectedChain =
     (case expectedChain of
        [] \<Rightarrow> ([getTypePrefix startId], [])
      | first # rest \<Rightarrow> traceLoop requirements first rest [getTypePrefix startId] [] [startId])"

definition determineCompletenessSeverity :: "string \<Rightarrow> nat \<Rightarrow> ValidationSeverity" where
  "determineCompletenessSeverity priority missingLinkCount =
     (if priority = ''critical'' then BLOCKER
      else if priority = ''high'' then (if missingLinkCount > 1 then HIGH else MEDIUM)
      else MEDIUM)"

text \<open>
  One turn of the loop of \<^verbatim>\<open>verifyHierarchicalCompleteness\<close>: the chains it pushes for
  one start record (none or one).
\<close>

definition chainReport :: "RequirementObject list \<Rightarrow> string list \<Rightarrow> RequirementObject \<Rightarrow>
    IncompleteChain list" where
  "chainReport requirements expectedChain startReq =
     (case traceChain requirements (req_id startReq) expectedChain of
        (actualPath, missingLinks) \<Rightarrow>
          if length missingLinks > 0
          then [\<lparr> ic_startId = req_id startReq,
                  ic_expectedPath = expectedChain,
                  ic_actualPath = actualPath,
                  ic_missingLinks = missingLinks,
                  ic_severity = determineCompletenessSeverity (priorityOrMedium startReq)
                                  (length missingLinks) \<rparr>]
          else [])"

text \<open>
  With an empty \<^verbatim>\<open>expectedChain\<close>, \<^verbatim>\<open>expectedChain[0]\<close> is \<^verbatim>\<open>undefined\<close> and no prefix
  equals it.
\<close>

definition verifyHierarchicalCompleteness :: "RequirementObject list \<Rightarrow> DeepValidationConfig \<Rightarrow>
    string list \<Rightarrow> IncompleteChain list" where
  "verifyHierarchicalCompleteness requirements config expectedChain =
     (let startRequirements =
            filter (\<lambda>req. case expectedChain of
                             [] \<Rightarrow> False
                           | first # _ \<Rightarrow> getTypePrefix (req_id req) = first) requirements
      in concat (map (chainReport requirements expectedChain) startRequirements))"

section \<open>Status consistency checker (completenessAnalyzer.ts, from line 233)\<close>

datatype StatusViolation = approved_to_draft | implemented_to_draft | baselined_to_draft

record StatusInconsistency =
  si_chain :: "string list"
  si_fromId :: string
  si_toId :: string
  si_fromStatus :: string
  si_toStatus :: string
  si_linkType :: string
  si_severity :: ValidationSeverity
  si_violation :: StatusViolation

definition detectStatusViolation :: "string \<Rightarrow> string \<Rightarrow> DeepValidationConfig \<Rightarrow>
    StatusViolation option" where
  "detectStatusViolation fromStatus toStatus config =
     (let from = toLowerCase fromStatus; to = toLowerCase toStatus in
      if enforceApprovedChain (statusConsistency config) \<and> from = ''approved'' \<and> to = ''draft''
      then Some approved_to_draft
      else if enforceImplementedChain (statusConsistency config)
              \<and> from = ''implemented'' \<and> to = ''draft''
      then Some implemented_to_draft
      else if from = ''baselined'' \<and> (to = ''draft'' \<or> to = ''review'')
      then Some baselined_to_draft
      else None)"

definition determineStatusInconsistencySeverity :: "string \<Rightarrow> string \<Rightarrow> StatusViolation \<Rightarrow>
    string \<Rightarrow> ValidationSeverity" where
  "determineStatusInconsistencySeverity fromStatus toStatus violation priority =
     (if violation = baselined_to_draft then HIGH
      else if priority = ''critical'' \<or> priority = ''high'' then HIGH
      else MEDIUM)"

definition buildChain :: "RequirementObject list \<Rightarrow> string \<Rightarrow> string \<Rightarrow> string list" where
  "buildChain requirements fromId toId = [fromId, toId]"

text \<open>The body of the innermost loop: what one link of one record pushes.\<close>

definition linkInconsistency :: "RequirementObject list \<Rightarrow> DeepValidationConfig \<Rightarrow>
    RequirementObject \<Rightarrow> string \<Rightarrow> string \<Rightarrow> StatusInconsistency list" where
  "linkInconsistency requirements config req linkType targetId =
     (let fromStatus = orElse (req_status req) ''draft'' in
      case getRequirementById requirements targetId of
        None \<Rightarrow> []
      | Some target \<Rightarrow>
          (let toStatus = orElse (req_status target) ''draft'' in
           case detectStatusViolation fromStatus toStatus config of
             None \<Rightarrow> []
           | Some violation \<Rightarrow>
               [\<lparr> si_chain = buildChain requirements (req_id req) targetId,
                   si_fromId = req_id req,
                   si_toId = targetId,
                   si_fromStatus = fromStatus,
                   si_toStatus = toStatus,
                   si_linkType = linkType,
                   si_severity = determineStatusInconsistencySeverity fromStatus toStatus
                                   violation (priorityOrMedium req),
                   si_violation = violation \<rparr>]))"

definition detectStatusInconsistencies :: "RequirementObject list \<Rightarrow> DeepValidationConfig \<Rightarrow>
    StatusInconsistency list" where
  "detectStatusInconsistencies requirements config =
     concat (map (\<lambda>req.
       concat (map (\<lambda>(linkType, targetIds).
         concat (map (linkInconsistency requirements config req linkType) targetIds))
         (links req)))
       requirements)"

section \<open>Coverage (graphAnalysis.ts, unnamed/part_003, completenessAnalyzer.ts)\<close>

text \<open>
  \<^verbatim>\<open>Math.round\<close>: the nearest integer, a tie going up. The quotient
  \<^verbatim>\<open>(covered / total) * 100\<close> is taken in exact arithmetic here; the source computes it in
  IEEE doubles, whose rounding error can move a value that is exactly a tie (such as
  29 of 200) to either side of it.
\<close>

definition Math_round :: "real \<Rightarrow> int" where
  "Math_round x = \<lfloor>x + 1 / 2\<rfloor>"




record HierarchicalCoverage =
  hc_linkType :: string
  hc_fromTypes :: "string list"
  hc_toTypes :: "string list"
  hc_total :: nat
  hc_withLinks :: nat
  hc_percentage :: int
  hc_threshold :: real
  hc_meets_threshold :: bool
  hc_missing :: "string list"

text \<open>
  The filter of \<^verbatim>\<open>validTargets\<close>: the target exists and its type is one of \<^verbatim>\<open>toTypes\<close>.
\<close>

definition validTarget :: "RequirementObject list \<Rightarrow> string list \<Rightarrow> string \<Rightarrow> bool" where
  "validTarget requirements toTypes targetId =
     (case find (\<lambda>r. req_id r = targetId) requirements of
        None \<Rightarrow> False
      | Some target \<Rightarrow> req_type target \<in> set toTypes)"

text \<open>
  The loop over \<^verbatim>\<open>sourceRequirements\<close>, carrying \<^verbatim>\<open>withLinks\<close> and \<^verbatim>\<open>missing\<close>.
  \<^verbatim>\<open>req.links[linkType]\<close> is the entry of the link type, if there is one.
\<close>

fun coverageLoop :: "RequirementObject list \<Rightarrow> string \<Rightarrow> string list \<Rightarrow>
    RequirementObject list \<Rightarrow> RequirementObject list \<Rightarrow> string list \<Rightarrow>
    RequirementObject list \<times> string list" where
  "coverageLoop requirements linkType toTypes [] withLinks missing = (withLinks, missing)"
| "coverageLoop requirements linkType toTypes (req # rest) withLinks missing =
     (case map_of (links req) linkType of
        None \<Rightarrow> coverageLoop requirements linkType toTypes rest withLinks (missing @ [req_id req])
      | Some ls \<Rightarrow>
          if length ls > 0
          then (let validTargets = filter (validTarget requirements toTypes) ls in
                if length validTargets > 0
                then coverageLoop requirements linkType toTypes rest (withLinks @ [req]) missing
                else coverageLoop requirements linkType toTypes rest withLinks
                       (missing @ [req_id req]))
          else coverageLoop requirements linkType toTypes rest withLinks (missing @ [req_id req]))"

definition calculateCoverageForLinkType :: "RequirementObject list \<Rightarrow> string \<Rightarrow> string list \<Rightarrow>
    string list \<Rightarrow> real \<Rightarrow> HierarchicalCoverage" where
  "calculateCoverageForLinkType requirements linkType fromTypes toTypes threshold =
     (let sourceRequirements = filter (\<lambda>req. req_type req \<in> set fromTypes) requirements in
      case coverageLoop requirements linkType toTypes sourceRequirements [] [] of
        (withLinks, missing) \<Rightarrow>
          (let total = length sourceRequirements;
               covered = length withLinks;
               percentage = (if total > 0 then Math_round ((real covered / real total) * 100) else 0)
           in \<lparr> hc_linkType = linkType,
                hc_fromTypes = fromTypes,
                hc_toTypes = toTypes,
                hc_total = total,
                hc_withLinks = covered,
                hc_percentage = percentage,
                hc_threshold = threshold,
                hc_meets_threshold = (real_of_int percentage \<ge> threshold),
                hc_missing = missing \<rparr>))"


record PriorityWeightedCoverage =
  pw_priority :: string
  pw_total :: nat
  pw_covered :: nat
  pw_percentage :: int
  pw_threshold :: real
  pw_meets_threshold :: bool
  pw_missing :: "string list"




text \<open>
  What the specification asks of a covered record: at least one link of the given type
  whose target exists in the record list and has a type among \<open>toTypes\<close>.
\<close>

definition hasValidLink :: "RequirementObject list \<Rightarrow> string \<Rightarrow> string list \<Rightarrow>
    RequirementObject \<Rightarrow> bool" where
  "hasValidLink requirements linkType toTypes req =
     (\<exists>ls targetId target.
        map_of (links req) linkType = Some ls \<and> targetId \<in> set ls
      \<and> find (\<lambda>r. req_id r = targetId) requirements = Some target
      \<and> req_type target \<in> set toTypes)"

section \<open>Orphan classifier (unnamed/part_007)\<close>

text \<open>
  Modelled from the spec: \<^verbatim>\<open>getAllIncomingLinks\<close> is exported by deepValidation.ts, which
  is not among the sources. The specification computes the in-degree of a record ``via
  linkGraph, i.e. either direction minus self'', and linkGraph registers every link
  \<open>a -> b\<close> in both directions; so the helper returns the ids linked with the record in
  either direction, without the record's own id, each once. (\<open>linkNeighbours\<close> is the
  linkGraph entry of an id, read off the record list.)
\<close>

definition linkNeighbours :: "RequirementObject list \<Rightarrow> string \<Rightarrow> string list" where
  "linkNeighbours requirements i =
     set_add_all []
       (concat (map getAllOutgoingLinks (filter (\<lambda>r. req_id r = i) requirements))
        @ map req_id (filter (\<lambda>r. i \<in> set (getAllOutgoingLinks r)) requirements))"

definition getAllIncomingLinks :: "RequirementObject list \<Rightarrow> string \<Rightarrow> string list" where
  "getAllIncomingLinks requirements i = filter (\<lambda>j. j \<noteq> i) (linkNeighbours requirements i)"

datatype OrphanCategory = true_orphan | dead_end | source_only

record OrphanedRequirement =
  or_id :: string
  or_type :: string
  or_priority :: string
  or_category :: OrphanCategory
  or_severity :: ValidationSeverity
  or_incomingCount :: nat
  or_outgoingCount :: nat

definition determineOrphanSeverity :: "RequirementObject \<Rightarrow> OrphanCategory \<Rightarrow>
    DeepValidationConfig \<Rightarrow> ValidationSeverity" where
  "determineOrphanSeverity req category config =
     (let priority = priorityOrMedium req in
      if category = true_orphan
      then (if toLowerCase priority = ''critical'' then os_critical (orphanSeverity config)
            else if toLowerCase priority = ''high'' then os_high (orphanSeverity config)
            else if toLowerCase priority = ''medium'' then os_medium (orphanSeverity config)
            else if toLowerCase priority = ''low'' then os_low (orphanSeverity config)
            else MEDIUM)
      else (if toLowerCase priority = ''critical'' then HIGH
            else if toLowerCase priority = ''high'' then MEDIUM
            else if toLowerCase priority = ''medium'' then LOW
            else if toLowerCase priority = ''low'' then INFO
            else LOW))"

text \<open>The \<^verbatim>\<open>if\<close> chain that sets \<^verbatim>\<open>category\<close>; \<open>None\<close> is \<^verbatim>\<open>null\<close>.\<close>

definition orphanCategory :: "nat \<Rightarrow> nat \<Rightarrow> OrphanCategory option" where
  "orphanCategory outgoing incoming =
     (if outgoing = 0 \<and> incoming = 0 then Some true_orphan
      else if outgoing = 0 \<and> incoming > 0 then Some dead_end
      else if outgoing > 0 \<and> incoming = 0 then Some source_only
      else None)"

text \<open>One turn of the loop of \<^verbatim>\<open>detectOrphanedRequirements\<close>.\<close>

definition orphanReport :: "RequirementObject list \<Rightarrow> DeepValidationConfig \<Rightarrow>
    RequirementObject \<Rightarrow> OrphanedRequirement list" where
  "orphanReport requirements config req =
     (let outgoing = getAllOutgoingLinks req;
          incoming = getAllIncomingLinks requirements (req_id req)
      in case orphanCategory (length outgoing) (length incoming) of
           None \<Rightarrow> []
         | Some category \<Rightarrow>
             [\<lparr> or_id = req_id req,
                 or_type = req_type req,
                 or_priority = priorityOrMedium req,
                 or_category = category,
                 or_severity = determineOrphanSeverity req category config,
                 or_incomingCount = length incoming,
                 or_outgoingCount = length outgoing \<rparr>])"

definition detectOrphanedRequirements :: "RequirementObject list \<Rightarrow> DeepValidationConfig \<Rightarrow>
    OrphanedRequirement list" where
  "detectOrphanedRequirements requirements config =
     concat (map (orphanReport requirements config) requirements)"

section \<open>Analyzer results and the deep validation report\<close>

text \<open>
  The result types of deepValidation.ts, as the analyzers build and read them. Fields that
  hold a formatted message (\<^verbatim>\<open>details\<close>, \<^verbatim>\<open>description\<close>) are left out.
\<close>

record CircularDependency =
  cd_cycle :: "string list"
  cd_length :: int
  cd_severity :: ValidationSeverity
  cd_linkTypes :: "string list"

datatype BaselineIssueKind = not_approved | downstream_not_baselined | version_conflict

record BaselineIssue =
  bi_id :: string
  bi_baseline :: string
  bi_issue :: BaselineIssueKind
  bi_severity :: ValidationSeverity
  bi_affectedIds :: "string list"

record DeepValidationReport =
  circularDependencies :: "CircularDependency list"
  rep_hierarchicalCoverage :: "HierarchicalCoverage list"
  orphanedRequirements :: "OrphanedRequirement list"
  statusInconsistencies :: "StatusInconsistency list"
  incompleteChains :: "IncompleteChain list"
  rep_priorityWeightedCoverage :: "PriorityWeightedCoverage list"
  baselineIssues :: "BaselineIssue list"

section \<open>Graph adapter\<close>

type_synonym Edges = "(string \<times> string list) list"
type_synonym Graph = "(string \<times> Edges) list"

text \<open>
  A JavaScript \<^verbatim>\<open>Map\<close> is an association list in insertion order; \<^verbatim>\<open>Map.set\<close> on a key
  that is present replaces the value in place.
\<close>

fun map_set :: "('k \<times> 'v) list \<Rightarrow> 'k \<Rightarrow> 'v \<Rightarrow> ('k \<times> 'v) list" where
  "map_set [] k v = [(k, v)]"
| "map_set ((k', v') # m) k v = (if k' = k then (k, v) # m else (k', v') # map_set m k v)"

text \<open>
  Modelled from the spec: \<^verbatim>\<open>buildGraph\<close> is exported by deepValidation.ts, which is not
  among the sources. The specification describes it as the pure function
  \<open>buildGraph(records) -> node -> (linkType -> [node])\<close> that keeps link types and
  direction; its tests show one node per record, also for a record without links. Every
  record sets the entry of its id to its links.
\<close>

definition buildGraph :: "RequirementObject list \<Rightarrow> Graph" where
  "buildGraph requirements =
     foldl (\<lambda>graph req. map_set graph (req_id req) (links req)) [] requirements"

text \<open>
  The \<^verbatim>\<open>neighbors\<close> set that the traversals build from \<^verbatim>\<open>edges.values()\<close>, ``regardless
  of link type''.
\<close>

definition neighborsOf :: "Edges \<Rightarrow> string list" where
  "neighborsOf edges = set_add_all [] (concat (map snd edges))"

section \<open>Cycle detector (circularDependencyDetector.ts)\<close>

text \<open>
  The variables that \<^verbatim>\<open>strongConnect\<close> closes over. The stack is a list whose head is the
  top. The lookups that the source marks with \<^verbatim>\<open>!\<close> read keys that were set before.
\<close>

record TarjanState =
  ts_indices :: "string \<rightharpoonup> nat"
  ts_lowLinks :: "string \<rightharpoonup> nat"
  ts_onStack :: "string set"
  ts_stack :: "string list"
  ts_index :: nat
  ts_sccs :: "string list list"

definition initialTarjanState :: TarjanState where
  "initialTarjanState =
     \<lparr> ts_indices = Map.empty, ts_lowLinks = Map.empty, ts_onStack = {}, ts_stack = [],
       ts_index = 0, ts_sccs = [] \<rparr>"

text \<open>
  The loop \<^verbatim>\<open>do { w = stack.pop(); onStack.delete(w); scc.push(w) } while (w !== node)\<close>.
  On a stack without \<open>node\<close> the source never leaves the loop (\<^verbatim>\<open>pop\<close> of the empty array
  is \<^verbatim>\<open>undefined\<close>): no result.
\<close>

fun popUntil :: "string \<Rightarrow> string list \<Rightarrow> string set \<Rightarrow> string list \<Rightarrow>
    (string list \<times> string set \<times> string list) option" where
  "popUntil node [] onStack scc = None"
| "popUntil node (w # stack) onStack scc =
     (if w = node then Some (stack, onStack - {w}, scc @ [w])
      else popUntil node stack (onStack - {w}) (scc @ [w]))"

text \<open>
  The loop over \<^verbatim>\<open>neighbors\<close> in \<^verbatim>\<open>strongConnect\<close>; \<open>recurse\<close> is the recursive call.
\<close>

fun visitNeighbors :: "(string \<Rightarrow> TarjanState \<Rightarrow> TarjanState option) \<Rightarrow> string \<Rightarrow> string list \<Rightarrow>
    TarjanState \<Rightarrow> TarjanState option" where
  "visitNeighbors recurse node [] st = Some st"
| "visitNeighbors recurse node (neighbor # rest) st =
     (if ts_indices st neighbor = None
      then (case recurse neighbor st of
              None \<Rightarrow> None
            | Some st' \<Rightarrow>
                visitNeighbors recurse node rest
                  (st'\<lparr> ts_lowLinks := (ts_lowLinks st')
                         (node \<mapsto> min (the (ts_lowLinks st' node)) (the (ts_lowLinks st' neighbor))) \<rparr>))
      else if neighbor \<in> ts_onStack st
      then visitNeighbors recurse node rest
             (st\<lparr> ts_lowLinks := (ts_lowLinks st)
                    (node \<mapsto> min (the (ts_lowLinks st node)) (the (ts_indices st neighbor))) \<rparr>)
      else visitNeighbors recurse node rest st)"

text \<open>
  The statements of \<^verbatim>\<open>strongConnect\<close> before the loop: the node gets the next index,
  which is also its first low link, and is pushed.
\<close>

definition pushNode :: "string \<Rightarrow> TarjanState \<Rightarrow> TarjanState" where
  "pushNode node st =
     st\<lparr> ts_indices := (ts_indices st)(node \<mapsto> ts_index st),
         ts_lowLinks := (ts_lowLinks st)(node \<mapsto> ts_index st),
         ts_index := ts_index st + 1,
         ts_stack := node # ts_stack st,
         ts_onStack := insert node (ts_onStack st) \<rparr>"

text \<open>
  The statements after the loop: a node whose low link is its own index is the root of a
  component, which is popped from the stack.
\<close>

definition popComponent :: "string \<Rightarrow> TarjanState \<Rightarrow> TarjanState option" where
  "popComponent node st =
     (if ts_lowLinks st node = ts_indices st node
      then (case popUntil node (ts_stack st) (ts_onStack st) [] of
              None \<Rightarrow> None
            | Some (stack', onStack', scc) \<Rightarrow>
                Some (st\<lparr> ts_stack := stack', ts_onStack := onStack',
                          ts_sccs := ts_sccs st @ [scc] \<rparr>))
      else Some st)"

text \<open>
  \<^verbatim>\<open>strongConnect\<close> is recursive; the first argument bounds the depth of the recursion
  (the call stack), and \<open>None\<close> says that the bound was reached.
\<close>

primrec strongConnect :: "nat \<Rightarrow> Graph \<Rightarrow> string \<Rightarrow> TarjanState \<Rightarrow> TarjanState option" where
  "strongConnect 0 graph node st = None"
| "strongConnect (Suc depth) graph node st =
     (case (case map_of graph node of
              None \<Rightarrow> Some (pushNode node st)
            | Some edges \<Rightarrow>
                visitNeighbors (strongConnect depth graph) node (neighborsOf edges)
                  (pushNode node st)) of
        None \<Rightarrow> None
      | Some st2 \<Rightarrow> popComponent node st2)"

text \<open>The loop \<^verbatim>\<open>for (const node of graph.keys())\<close>.\<close>

fun connectAll :: "nat \<Rightarrow> Graph \<Rightarrow> string list \<Rightarrow> TarjanState \<Rightarrow> TarjanState option" where
  "connectAll depth graph [] st = Some st"
| "connectAll depth graph (node # rest) st =
     (if ts_indices st node = None
      then (case strongConnect depth graph node st of
              None \<Rightarrow> None
            | Some st' \<Rightarrow> connectAll depth graph rest st')
      else connectAll depth graph rest st)"

definition findStronglyConnectedComponents :: "nat \<Rightarrow> Graph \<Rightarrow> string list list option" where
  "findStronglyConnectedComponents depth graph =
     map_option ts_sccs (connectAll depth graph (map fst graph) initialTarjanState)"

text \<open>The variables that \<^verbatim>\<open>dfs\<close> in \<^verbatim>\<open>findCyclePath\<close> closes over.\<close>

record PathState =
  ps_visited :: "string set"
  ps_path :: "string list"

text \<open>
  The loop over \<^verbatim>\<open>neighbors\<close> in \<^verbatim>\<open>dfs\<close>. The result \<open>(True, st)\<close> is a
  \<^verbatim>\<open>return true\<close> from inside the loop, \<open>(False, st)\<close> the end of the loop.
\<close>

fun dfsNeighbors :: "(string \<Rightarrow> PathState \<Rightarrow> (bool \<times> PathState) option) \<Rightarrow> string list \<Rightarrow> string \<Rightarrow>
    string list \<Rightarrow> PathState \<Rightarrow> (bool \<times> PathState) option" where
  "dfsNeighbors recurse scc target [] st = Some (False, st)"
| "dfsNeighbors recurse scc target (neighbor # rest) st =
     (if neighbor \<notin> set scc then dfsNeighbors recurse scc target rest st
      else if neighbor = target \<and> length (ps_path st) > 1
      then Some (True, st\<lparr> ps_path := ps_path st @ [neighbor] \<rparr>)
      else if neighbor \<notin> ps_visited st
      then (case recurse neighbor st of
              None \<Rightarrow> None
            | Some (True, st') \<Rightarrow> Some (True, st')
            | Some (False, st') \<Rightarrow> dfsNeighbors recurse scc target rest st')
      else dfsNeighbors recurse scc target rest st)"

text \<open>The statements of \<^verbatim>\<open>dfs\<close> before the loop.\<close>

definition enterNode :: "string \<Rightarrow> PathState \<Rightarrow> PathState" where
  "enterNode node st =
     st\<lparr> ps_visited := insert node (ps_visited st), ps_path := ps_path st @ [node] \<rparr>"

text \<open>
  \<^verbatim>\<open>dfs\<close> of \<^verbatim>\<open>findCyclePath\<close>; the first argument bounds the depth of the recursion.
  After the loop the node is popped from the path.
\<close>

primrec dfs :: "nat \<Rightarrow> Graph \<Rightarrow> string list \<Rightarrow> string \<Rightarrow> string \<Rightarrow> PathState \<Rightarrow>
    (bool \<times> PathState) option" where
  "dfs 0 graph scc target node st = None"
| "dfs (Suc depth) graph scc target node st =
     (case (case map_of graph node of
              None \<Rightarrow> Some (False, enterNode node st)
            | Some edges \<Rightarrow>
                dfsNeighbors (dfs depth graph scc target) scc target (neighborsOf edges)
                  (enterNode node st)) of
        None \<Rightarrow> None
      | Some (True, st2) \<Rightarrow> Some (True, st2)
      | Some (False, st2) \<Rightarrow> Some (False, st2\<lparr> ps_path := butlast (ps_path st2) \<rparr>))"

text \<open>
  \<^verbatim>\<open>findCyclePath\<close> starts at \<^verbatim>\<open>scc[0]\<close>; it is called for components with more than one
  node.
\<close>

definition findCyclePath :: "nat \<Rightarrow> string list \<Rightarrow> Graph \<Rightarrow> string list option" where
  "findCyclePath depth scc graph =
     (case scc of
        [] \<Rightarrow> Some []
      | startNode # _ \<Rightarrow>
          (case dfs depth graph scc startNode startNode \<lparr> ps_visited = {}, ps_path = [] \<rparr> of
             None \<Rightarrow> None
           | Some (found, st) \<Rightarrow> Some (if length (ps_path st) > 0 then ps_path st else scc)))"

definition getCycleLinkTypes :: "string list \<Rightarrow> Graph \<Rightarrow> string list" where
  "getCycleLinkTypes cycle graph =
     set_add_all []
       (concat (map (\<lambda>(from, to).
                  case map_of graph from of
                    None \<Rightarrow> []
                  | Some edges \<Rightarrow> map fst (filter (\<lambda>(linkType, targets). to \<in> set targets) edges))
                (zip cycle (tl cycle))))"

definition determineCycleSeverity :: "nat \<Rightarrow> DeepValidationConfig \<Rightarrow> ValidationSeverity" where
  "determineCycleSeverity len config =
     (if len \<le> 2 then length2 (cycleSeverity config)
      else if len \<le> 5 then length3_5 (cycleSeverity config)
      else length6plus (cycleSeverity config))"

text \<open>One turn of the loop over the components: the cycles it pushes (none or one).\<close>

definition sccCycles :: "nat \<Rightarrow> Graph \<Rightarrow> DeepValidationConfig \<Rightarrow> string list \<Rightarrow>
    CircularDependency list option" where
  "sccCycles depth graph config scc =
     (if length scc > 1
      then (case findCyclePath depth scc graph of
              None \<Rightarrow> None
            | Some cycle \<Rightarrow>
                Some [\<lparr> cd_cycle = cycle,
                        cd_length = int (length cycle) - 1,
                        cd_severity = determineCycleSeverity (length cycle) config,
                        cd_linkTypes = getCycleLinkTypes cycle graph \<rparr>])
      else if length scc = 1
      then (let node = hd scc in
            case map_of graph node of
              None \<Rightarrow> Some []
            | Some edges \<Rightarrow>
                if list_ex (\<lambda>targets. node \<in> set targets) (map snd edges)
                then Some [\<lparr> cd_cycle = [node, node],
                             cd_length = 1,
                             cd_severity = HIGH,
                             cd_linkTypes = map fst edges \<rparr>]
                else Some [])
      else Some [])"

fun collectAll :: "('a \<Rightarrow> 'b list option) \<Rightarrow> 'a list \<Rightarrow> 'b list option" where
  "collectAll f [] = Some []"
| "collectAll f (x # xs) =
     (case f x of
        None \<Rightarrow> None
      | Some ys \<Rightarrow> (case collectAll f xs of None \<Rightarrow> None | Some zs \<Rightarrow> Some (ys @ zs)))"

text \<open>
  \<^verbatim>\<open>detectCircularDependencies\<close> of the cycle detector. \<open>depth\<close> bounds the depth of the
  two recursions.
\<close>

definition detectCircularDependencies :: "nat \<Rightarrow> RequirementObject list \<Rightarrow> DeepValidationConfig \<Rightarrow>
    CircularDependency list option" where
  "detectCircularDependencies depth requirements config =
     (let graph = buildGraph requirements in
      case findStronglyConnectedComponents depth graph of
        None \<Rightarrow> None
      | Some components \<Rightarrow> collectAll (sccCycles depth graph config) components)"

section \<open>Cycle detection by depth-first search (graphAnalysis.ts)\<close>










section \<open>Gap recommendation synthesizer (unnamed/part_004)\<close>

datatype ValidationCategory =
  CIRCULAR_DEPENDENCY | COVERAGE | ORPHANED | STATUS_CONSISTENCY | COMPLETENESS | PRIORITY
  | BASELINE

datatype Effort = effort_low | effort_medium | effort_high

record GapRecommendation =
  gr_severity :: ValidationSeverity
  gr_category :: ValidationCategory
  gr_action :: string
  gr_affectedCount :: nat
  gr_affectedIds :: "string list"
  gr_estimatedEffort :: Effort
  gr_priority :: nat

definition analyzeCircularDependencies :: "CircularDependency list \<Rightarrow> GapRecommendation list" where
  "analyzeCircularDependencies cycles =
     (if length cycles = 0 then []
      else
        (let blockerCycles = filter (\<lambda>c. cd_severity c = BLOCKER) cycles;
             highCycles = filter (\<lambda>c. cd_severity c = HIGH) cycles
         in (if length blockerCycles > 0
             then (let affectedIds = set_add_all [] (concat (map cd_cycle blockerCycles)) in
                   [\<lparr> gr_severity = BLOCKER, gr_category = CIRCULAR_DEPENDENCY,
                       gr_action = ''Break circular dependencies'',
                       gr_affectedCount = length affectedIds, gr_affectedIds = affectedIds,
                       gr_estimatedEffort = effort_high, gr_priority = 0 \<rparr>])
             else [])
          @ (if length highCycles > 0
             then (let affectedIds = set_add_all [] (concat (map cd_cycle highCycles)) in
                   [\<lparr> gr_severity = HIGH, gr_category = CIRCULAR_DEPENDENCY,
                       gr_action = ''Resolve circular dependencies'',
                       gr_affectedCount = length affectedIds, gr_affectedIds = affectedIds,
                       gr_estimatedEffort = effort_medium, gr_priority = 0 \<rparr>])
             else [])))"

definition coverageGap :: "HierarchicalCoverage \<Rightarrow> GapRecommendation list" where
  "coverageGap cov =
     (if \<not> hc_meets_threshold cov \<and> length (hc_missing cov) > 0
      then (let gap = hc_threshold cov - real_of_int (hc_percentage cov);
                severity = (if gap > 20 then HIGH else if gap > 10 then MEDIUM else LOW)
            in [\<lparr> gr_severity = severity, gr_category = COVERAGE,
                    gr_action = ''Add '' @ hc_linkType cov @ '' links'',
                    gr_affectedCount = length (hc_missing cov), gr_affectedIds = hc_missing cov,
                    gr_estimatedEffort =
                      (if length (hc_missing cov) > 20 then effort_high
                       else if length (hc_missing cov) > 10 then effort_medium else effort_low),
                    gr_priority = 0 \<rparr>])
      else [])"

definition analyzeCoverageGaps :: "HierarchicalCoverage list \<Rightarrow> RequirementObject list \<Rightarrow>
    GapRecommendation list" where
  "analyzeCoverageGaps coverage requirements = concat (map coverageGap coverage)"

definition analyzeOrphanedRequirements :: "OrphanedRequirement list \<Rightarrow> GapRecommendation list" where
  "analyzeOrphanedRequirements orphans =
     (if length orphans = 0 then []
      else
        (let trueOrphans = filter (\<lambda>orphan. or_category orphan = true_orphan) orphans;
             deadEnds = filter (\<lambda>orphan. or_category orphan = dead_end) orphans;
             criticalOrphans =
               filter (\<lambda>orphan. or_severity orphan = BLOCKER \<or> or_severity orphan = HIGH) trueOrphans
         in (if length trueOrphans > 0 \<and> length criticalOrphans > 0
             then [\<lparr> gr_severity = HIGH, gr_category = ORPHANED,
                      gr_action = ''Link critical orphaned requirements'',
                      gr_affectedCount = length criticalOrphans,
                      gr_affectedIds = map or_id criticalOrphans,
                      gr_estimatedEffort = effort_high, gr_priority = 0 \<rparr>]
             else [])
          @ (if length deadEnds > 5
             then [\<lparr> gr_severity = MEDIUM, gr_category = ORPHANED,
                      gr_action = ''Add downstream traceability'',
                      gr_affectedCount = length deadEnds,
                      gr_affectedIds = map or_id deadEnds,
                      gr_estimatedEffort = effort_high, gr_priority = 0 \<rparr>]
             else [])))"

definition analyzeStatusInconsistencies :: "StatusInconsistency list \<Rightarrow> GapRecommendation list" where
  "analyzeStatusInconsistencies inconsistencies =
     (if length inconsistencies = 0 then []
      else
        (let approvedToDraft = filter (\<lambda>i. si_violation i = approved_to_draft) inconsistencies;
             baselinedToDraft = filter (\<lambda>i. si_violation i = baselined_to_draft) inconsistencies
         in (if length baselinedToDraft > 0
             then (let affectedIds =
                         set_add_all [] (concat (map (\<lambda>i. [si_fromId i, si_toId i]) baselinedToDraft))
                   in [\<lparr> gr_severity = HIGH, gr_category = STATUS_CONSISTENCY,
                          gr_action = ''Fix baselined requirement status violations'',
                          gr_affectedCount = length affectedIds, gr_affectedIds = affectedIds,
                          gr_estimatedEffort = effort_medium, gr_priority = 0 \<rparr>])
             else [])
          @ (if length approvedToDraft > 0
             then (let targetIds = set_add_all [] (map si_toId approvedToDraft)
                   in [\<lparr> gr_severity = MEDIUM, gr_category = STATUS_CONSISTENCY,
                          gr_action = ''Update status of downstream requirements'',
                          gr_affectedCount = length targetIds, gr_affectedIds = targetIds,
                          gr_estimatedEffort = effort_low, gr_priority = 0 \<rparr>])
             else [])))"

definition analyzeIncompleteChains :: "IncompleteChain list \<Rightarrow> GapRecommendation list" where
  "analyzeIncompleteChains chainList =
     (if length chainList = 0 then []
      else
        (let criticalChains =
               filter (\<lambda>c. ic_severity c = BLOCKER \<or> ic_severity c = HIGH) chainList
         in if length criticalChains = 0 then []
            else [\<lparr> gr_severity = HIGH, gr_category = COMPLETENESS,
                     gr_action = ''Complete critical traceability chains'',
                     gr_affectedCount = length criticalChains,
                     gr_affectedIds = map ic_startId criticalChains,
                     gr_estimatedEffort = effort_high, gr_priority = 0 \<rparr>]))"

definition priorityGap :: "PriorityWeightedCoverage \<Rightarrow> GapRecommendation list" where
  "priorityGap cov =
     (if \<not> pw_meets_threshold cov \<and> length (pw_missing cov) > 0
      then [\<lparr> gr_severity =
                 (if pw_priority cov = ''critical'' then BLOCKER
                  else if pw_priority cov = ''high'' then HIGH else MEDIUM),
               gr_category = PRIORITY,
               gr_action = ''Add links for '' @ pw_priority cov @ '' priority requirements'',
               gr_affectedCount = length (pw_missing cov), gr_affectedIds = pw_missing cov,
               gr_estimatedEffort =
                 (if length (pw_missing cov) > 10 then effort_high else effort_medium),
               gr_priority = 0 \<rparr>]
      else [])"

definition analyzePriorityCoverage :: "PriorityWeightedCoverage list \<Rightarrow> GapRecommendation list" where
  "analyzePriorityCoverage coverage = concat (map priorityGap coverage)"

definition analyzeBaselineIssues :: "BaselineIssue list \<Rightarrow> GapRecommendation list" where
  "analyzeBaselineIssues issues =
     (if length issues = 0 then []
      else
        (let notApproved = filter (\<lambda>i. bi_issue i = not_approved) issues;
             versionConflicts = filter (\<lambda>i. bi_issue i = version_conflict) issues
         in (if length notApproved > 0
             then [\<lparr> gr_severity = HIGH, gr_category = BASELINE,
                      gr_action = ''Approve baselined requirements'',
                      gr_affectedCount = length notApproved,
                      gr_affectedIds = map bi_id notApproved,
                      gr_estimatedEffort = effort_medium, gr_priority = 0 \<rparr>]
             else [])
          @ (if length versionConflicts > 0
             then (let affectedIds =
                         set_add_all [] (concat (map bi_affectedIds versionConflicts))
                   in [\<lparr> gr_severity = MEDIUM, gr_category = BASELINE,
                          gr_action = ''Resolve baseline version conflicts'',
                          gr_affectedCount = length affectedIds, gr_affectedIds = affectedIds,
                          gr_estimatedEffort = effort_medium, gr_priority = 0 \<rparr>])
             else [])))"

text \<open>The table \<^verbatim>\<open>severityOrder\<close> and the comparator handed to \<^verbatim>\<open>sort\<close>.\<close>

fun severityOrder :: "ValidationSeverity \<Rightarrow> int" where
  "severityOrder BLOCKER = 0"
| "severityOrder HIGH = 1"
| "severityOrder MEDIUM = 2"
| "severityOrder LOW = 3"
| "severityOrder INFO = 4"

definition compareRecommendations :: "GapRecommendation \<Rightarrow> GapRecommendation \<Rightarrow> int" where
  "compareRecommendations a b =
     (let severityDiff = severityOrder (gr_severity a) - severityOrder (gr_severity b) in
      if severityDiff \<noteq> 0 then severityDiff
      else int (gr_affectedCount b) - int (gr_affectedCount a))"

text \<open>
  \<^verbatim>\<open>Array.prototype.sort\<close> with a comparator is a stable sort; it is modelled as the stable
  insertion sort: the elements are taken from left to right, and each is placed before the
  first element that the comparator puts strictly after it.
\<close>

fun insertSorted :: "('a \<Rightarrow> 'a \<Rightarrow> int) \<Rightarrow> 'a \<Rightarrow> 'a list \<Rightarrow> 'a list" where
  "insertSorted cmp x [] = [x]"
| "insertSorted cmp x (y # ys) =
     (if cmp x y < 0 then x # y # ys else y # insertSorted cmp x ys)"

definition sortWith :: "('a \<Rightarrow> 'a \<Rightarrow> int) \<Rightarrow> 'a list \<Rightarrow> 'a list" where
  "sortWith cmp xs = foldl (\<lambda>acc x. insertSorted cmp x acc) [] xs"

text \<open>\<^verbatim>\<open>recommendations.forEach((rec, index) => { rec.priority = index + 1; })\<close>\<close>

definition assignPriorities :: "GapRecommendation list \<Rightarrow> GapRecommendation list" where
  "assignPriorities recs = map (\<lambda>(index, rec). rec\<lparr> gr_priority := index + 1 \<rparr>) (enumerate 0 recs)"

definition generateGapRecommendations :: "DeepValidationReport \<Rightarrow> RequirementObject list \<Rightarrow>
    GapRecommendation list" where
  "generateGapRecommendations report requirements =
     (let recommendations =
            analyzeCircularDependencies (circularDependencies report)
          @ analyzeCoverageGaps (rep_hierarchicalCoverage report) requirements
          @ analyzeOrphanedRequirements (orphanedRequirements report)
          @ analyzeStatusInconsistencies (statusInconsistencies report)
          @ analyzeIncompleteChains (incompleteChains report)
          @ analyzePriorityCoverage (rep_priorityWeightedCoverage report)
          @ analyzeBaselineIssues (baselineIssues report)
      in assignPriorities (sortWith compareRecommendations recommendations))"

text \<open>
  The order the specification asks of the final list: by severity rank, and within one
  severity by descending affected count.
\<close>

definition recBefore :: "GapRecommendation \<Rightarrow> GapRecommendation \<Rightarrow> bool" where
  "recBefore a b \<longleftrightarrow>
     severityOrder (gr_severity a) < severityOrder (gr_severity b)
   \<or> (gr_severity a = gr_severity b \<and> gr_affectedCount b \<le> gr_affectedCount a)"

section \<open>Requirement index (index builder)\<close>

text \<open>
  Modelled from the spec: the index builder (indexing/indexBuilder.ts) is not among the
  sources; only its callers and a test helper that builds \<^verbatim>\<open>linkGraph\<close> are. The index
  is the primary mapping from ids to records, the secondary mapping from files to ids and
  \<^verbatim>\<open>linkGraph\<close>; the secondary mappings by type, level, status and baseline are left
  out. Following the specification, inserting a link \<open>a -> b\<close> registers \<open>b\<close> with \<open>a\<close> and
  \<open>a\<close> with \<open>b\<close> (as the test helper does); removing a record removes it from the
  mappings and removes both directions of its links from \<^verbatim>\<open>linkGraph\<close>; \<^verbatim>\<open>upsert\<close>
  replaces a record by removing the stored record of the id before it inserts the new
  one; \<^verbatim>\<open>removeByFile\<close> removes every record of the file. An id without an entry in
  \<^verbatim>\<open>linkGraph\<close> has the empty set.
\<close>

record RequirementIndex =
  objects :: "string \<rightharpoonup> RequirementObject"
  fileIndex :: "string \<Rightarrow> string list"
  linkGraph :: "string \<Rightarrow> string set"

definition emptyIndex :: RequirementIndex where
  "emptyIndex = \<lparr> objects = Map.empty, fileIndex = (\<lambda>f. []), linkGraph = (\<lambda>i. {}) \<rparr>"

definition registerLink :: "(string \<Rightarrow> string set) \<Rightarrow> string \<Rightarrow> string \<Rightarrow> (string \<Rightarrow> string set)" where
  "registerLink lg a b =
     (let lg1 = lg(a := insert b (lg a)) in lg1(b := insert a (lg1 b)))"

definition unregisterLink :: "(string \<Rightarrow> string set) \<Rightarrow> string \<Rightarrow> string \<Rightarrow> (string \<Rightarrow> string set)" where
  "unregisterLink lg a b =
     (let lg1 = lg(a := lg a - {b}) in lg1(b := lg1 b - {a}))"

definition removeRecord :: "RequirementIndex \<Rightarrow> string \<Rightarrow> RequirementIndex" where
  "removeRecord idx i =
     (case objects idx i of
        None \<Rightarrow> idx
      | Some r \<Rightarrow>
          \<lparr> objects = (objects idx)(i := None),
            fileIndex = (fileIndex idx)
              (location_file r := removeAll i (fileIndex idx (location_file r))),
            linkGraph = foldl (\<lambda>lg b. unregisterLink lg i b) (linkGraph idx)
                          (getAllOutgoingLinks r) \<rparr>)"

definition upsert :: "RequirementIndex \<Rightarrow> RequirementObject \<Rightarrow> RequirementIndex" where
  "upsert idx r =
     (let idx1 = removeRecord idx (req_id r) in
      \<lparr> objects = (objects idx1)(req_id r \<mapsto> r),
        fileIndex = (fileIndex idx1)
          (location_file r := set_add (fileIndex idx1 (location_file r)) (req_id r)),
        linkGraph = foldl (\<lambda>lg b. registerLink lg (req_id r) b) (linkGraph idx1)
                      (getAllOutgoingLinks r) \<rparr>)"





section \<open>Invariants of the traversals\<close>

text \<open>
  The nodes of a graph: its keys and the targets of its edges. Every recursive call of
  \<^verbatim>\<open>strongConnect\<close> indexes a node of the graph that had no index, which bounds the depth of
  the recursion by the number of nodes.
\<close>

definition graphNodes :: "Graph \<Rightarrow> string set" where
  "graphNodes graph = set (map fst graph) \<union> (\<Union>edges \<in> set (map snd graph). set (neighborsOf edges))"

text \<open>The stack and the components hold nodes of the graph.\<close>

definition nodesInGraph :: "Graph \<Rightarrow> TarjanState \<Rightarrow> bool" where
  "nodesInGraph graph st \<longleftrightarrow>
     set (ts_stack st) \<subseteq> graphNodes graph \<and> (\<forall>scc \<in> set (ts_sccs st). set scc \<subseteq> graphNodes graph)"

text \<open>
  What a call of \<^verbatim>\<open>strongConnect\<close> does to the state around it: indices are only added,
  and the stack below the call is left as it was.
\<close>

definition extends :: "TarjanState \<Rightarrow> TarjanState \<Rightarrow> bool" where
  "extends st st' \<longleftrightarrow>
     dom (ts_indices st) \<subseteq> dom (ts_indices st') \<and> (\<exists>zs. ts_stack st' = zs @ ts_stack st)"

text \<open>
  For a node \<open>x\<close> whose only edge leads to itself: \<open>x\<close> is on the stack only while its own
  call runs, a component that holds \<open>x\<close> is \<open>[x]\<close>, and there is one such component once
  \<open>x\<close> has an index.
\<close>

definition selfLoopInv :: "string \<Rightarrow> TarjanState \<Rightarrow> bool" where
  "selfLoopInv x st \<longleftrightarrow>
     x \<notin> set (ts_stack st)
   \<and> (\<forall>scc \<in> set (ts_sccs st). x \<in> set scc \<longrightarrow> scc = [x])
   \<and> length (filter (\<lambda>scc. x \<in> set scc) (ts_sccs st)) = (if ts_indices st x = None then 0 else 1)"

text \<open>
  What a call of \<^verbatim>\<open>dfs\<close> in \<^verbatim>\<open>findCyclePath\<close> does: nodes are only added to \<^verbatim>\<open>visited\<close>,
  and a path inside the component stays inside it.
\<close>

definition pathGrows :: "string list \<Rightarrow> PathState \<Rightarrow> PathState \<Rightarrow> bool" where
  "pathGrows scc st st' \<longleftrightarrow>
     ps_visited st \<subseteq> ps_visited st' \<and> (set (ps_path st) \<subseteq> set scc \<longrightarrow> set (ps_path st') \<subseteq> set scc)"

section \<open>Example data\<close>

text \<open>
  The default cycle severities, as the tests of deepValidation.ts state them, and a
  configuration that carries them. The other sections of \<open>sampleConfig\<close> hold values
  chosen for the examples below.
\<close>

definition DEFAULT_cycleSeverity :: CycleSeverityConfig where
  "DEFAULT_cycleSeverity = \<lparr> length2 = HIGH, length3_5 = MEDIUM, length6plus = LOW \<rparr>"

definition sampleConfig :: DeepValidationConfig where
  "sampleConfig =
     \<lparr> cycleSeverity = DEFAULT_cycleSeverity,
       orphanSeverity = \<lparr> os_critical = BLOCKER, os_high = HIGH, os_medium = MEDIUM, os_low = LOW \<rparr>,
       hierarchicalCoverage = [],
       priorityWeightedCoverage =
         [(''critical'', 100), (''high'', 90), (''medium'', 80), (''low'', 60)],
       statusConsistency = \<lparr> enforceApprovedChain = True, enforceImplementedChain = True \<rparr>,
       baselineStability = \<lparr> requireApproved = True, requireDownstreamBaselined = True \<rparr> \<rparr>"

definition mkReq :: "string \<Rightarrow> string \<Rightarrow> string option \<Rightarrow> (string \<times> string list) list \<Rightarrow>
    (string \<times> string) list \<Rightarrow> RequirementObject" where
  "mkReq i t st ls md =
     \<lparr> req_id = i, req_type = t, req_status = st, links = ls, metadata = md,
       location_file = ''/test/file.rst'', baseline = None \<rparr>"

definition exA :: RequirementObject where
  "exA = mkReq ''A'' ''stk'' None [(''implements'', [''B''])] []"
definition exB :: RequirementObject where
  "exB = mkReq ''B'' ''sys'' None [(''implements'', [''C''])] []"
definition exC :: RequirementObject where
  "exC = mkReq ''C'' ''dsg'' None [] []"

definition sameA :: RequirementObject where
  "sameA = mkReq ''A'' ''requirement'' None [(''implements'', [''B''])] []"
definition sameB :: RequirementObject where
  "sameB = mkReq ''B'' ''requirement'' None [(''implements'', [''C''])] []"
definition sameC :: RequirementObject where
  "sameC = mkReq ''C'' ''requirement'' None [] []"


definition exD :: RequirementObject where
  "exD = mkReq ''D'' ''requirement'' None [] []"

definition exReport :: DeepValidationReport where
  "exReport =
     \<lparr> circularDependencies =
         [\<lparr> cd_cycle = [''A'', ''B'', ''A''], cd_length = 2, cd_severity = HIGH,
             cd_linkTypes = [''links''] \<rparr>],
       rep_hierarchicalCoverage = [],
       orphanedRequirements = [],
       statusInconsistencies =
         [\<lparr> si_chain = [''0001'', ''0002''], si_fromId = ''0001'', si_toId = ''0002'',
             si_fromStatus = ''approved'', si_toStatus = ''draft'', si_linkType = ''satisfies'',
             si_severity = MEDIUM, si_violation = approved_to_draft \<rparr>],
       incompleteChains =
         [\<lparr> ic_startId = ''STK001'', ic_expectedPath = [''STK'', ''SYS''],
             ic_actualPath = [''STK''], ic_missingLinks = [''STK'' @ arrow @ ''SYS''],
             ic_severity = BLOCKER \<rparr>],
       rep_priorityWeightedCoverage = [],
       baselineIssues = [] \<rparr>"

text \<open>Two records that link to each other.\<close>

definition cycA :: RequirementObject where
  "cycA = mkReq ''A'' ''requirement'' None [(''links'', [''B''])] []"

definition cycB :: RequirementObject where
  "cycB = mkReq ''B'' ''requirement'' None [(''links'', [''A''])] []"










text \<open>A record that links to itself.\<close>

definition selfX :: RequirementObject where
  "selfX = mkReq ''REQ001'' ''requirement'' None [(''links'', [''REQ001''])] []"

section \<open>Theorems\<close>

subsection \<open>Requirement index\<close>


lemma foldl_registerLink:
  "x \<in> foldl (\<lambda>lg b. registerLink lg i b) lg bs y \<longleftrightarrow>
     x \<in> lg y \<or> (y = i \<and> x \<in> set bs) \<or> (x = i \<and> y \<in> set bs)"
  by (induction bs arbitrary: lg) (auto simp: registerLink_def Let_def)




lemma linkGraph_upsert:
  "x \<in> linkGraph (upsert idx r) y \<longleftrightarrow>
     x \<in> linkGraph (removeRecord idx (req_id r)) y
   \<or> (y = req_id r \<and> x \<in> set (getAllOutgoingLinks r))
   \<or> (x = req_id r \<and> y \<in> set (getAllOutgoingLinks r))"
  by (simp add: upsert_def Let_def foldl_registerLink)

















subsection \<open>Completeness tracer\<close>

lemma traceLoop_missing:
  "length (snd (traceLoop requirements prevType types actualPath missingLinks currentReqs))
     \<le> Suc (length missingLinks)"
  by (induction types arbitrary: prevType actualPath currentReqs) (auto simp: Let_def)

lemma traceChain_missing: "length (snd (traceChain requirements startId expectedChain)) \<le> 1"
  using traceLoop_missing [of requirements _ _ _ "[]"]
  by (auto simp: traceChain_def split: list.splits)

lemma chainReport_entry:
  assumes "c \<in> set (chainReport requirements expectedChain s)"
  shows "ic_startId c = req_id s
       \<and> (ic_actualPath c, ic_missingLinks c) = traceChain requirements (req_id s) expectedChain
       \<and> length (ic_missingLinks c) = 1
       \<and> ic_severity c = (if priorityOrMedium s = ''critical'' then BLOCKER else MEDIUM)"
proof -
  obtain ap ml where t: "traceChain requirements (req_id s) expectedChain = (ap, ml)"
    by (cases "traceChain requirements (req_id s) expectedChain")
  from traceChain_missing [of requirements "req_id s" expectedChain] t
  have le: "length ml \<le> 1" by simp
  from assms t have pos: "length ml > 0" and c:
    "c = \<lparr> ic_startId = req_id s, ic_expectedPath = expectedChain, ic_actualPath = ap,
           ic_missingLinks = ml,
           ic_severity = determineCompletenessSeverity (priorityOrMedium s) (length ml) \<rparr>"
    by (auto simp: chainReport_def split: if_splits)
  from le pos have one: "length ml = 1" by (cases ml) auto
  show ?thesis
    using c t one by (simp add: determineCompletenessSeverity_def)
qed

text \<open>
  C10. Every incomplete chain that \<^verbatim>\<open>verifyHierarchicalCompleteness\<close> emits comes from a
  start record of the list, carries the result of \<^verbatim>\<open>traceChain\<close> for it, has exactly one
  entry in \<^verbatim>\<open>missingLinks\<close>, and its severity is BLOCKER when the priority of the start
  record is \<^verbatim>\<open>critical\<close> and MEDIUM otherwise; HIGH is never produced.
\<close>

theorem incomplete_chain_one_missing_link:
  "\<forall>c \<in> set (verifyHierarchicalCompleteness requirements config expectedChain).
     length (ic_missingLinks c) = 1
     \<and> ic_severity c \<noteq> HIGH
     \<and> (\<exists>s \<in> set requirements.
           ic_startId c = req_id s
         \<and> (ic_actualPath c, ic_missingLinks c) = traceChain requirements (req_id s) expectedChain
         \<and> ic_severity c = (if priorityOrMedium s = ''critical'' then BLOCKER else MEDIUM))"
proof
  fix c
  assume "c \<in> set (verifyHierarchicalCompleteness requirements config expectedChain)"
  then obtain s where s: "s \<in> set requirements"
    and c: "c \<in> set (chainReport requirements expectedChain s)"
    by (auto simp: verifyHierarchicalCompleteness_def)
  from chainReport_entry [OF c] s
  show "length (ic_missingLinks c) = 1
     \<and> ic_severity c \<noteq> HIGH
     \<and> (\<exists>s \<in> set requirements.
           ic_startId c = req_id s
         \<and> (ic_actualPath c, ic_missingLinks c) = traceChain requirements (req_id s) expectedChain
         \<and> ic_severity c = (if priorityOrMedium s = ''critical'' then BLOCKER else MEDIUM))"
    by (auto split: if_splits)
qed

theorem incomplete_chain_one_missing_link_witness:
  "\<lparr> ic_startId = ''STK001'', ic_expectedPath = [''STK'', ''SYS''], ic_actualPath = [''STK''],
      ic_missingLinks = [''STK'' @ arrow @ ''SYS''], ic_severity = BLOCKER \<rparr>
     \<in> set (verifyHierarchicalCompleteness
              [mkReq ''STK001'' ''requirement'' None [] [(''priority'', ''critical'')]]
              sampleConfig [''STK'', ''SYS''])
   \<and> length [''STK'' @ arrow @ ''SYS''] = 1
   \<and> priorityOrMedium (mkReq ''STK001'' ''requirement'' None [] [(''priority'', ''critical'')])
       = ''critical''"
proof -
  let ?r = "mkReq ''STK001'' ''requirement'' None [] [(''priority'', ''critical'')]"
  let ?c = "\<lparr> ic_startId = ''STK001'', ic_expectedPath = [''STK'', ''SYS''],
              ic_actualPath = [''STK''], ic_missingLinks = [''STK'' @ arrow @ ''SYS''],
              ic_severity = BLOCKER \<rparr>"
  have mem: "?c \<in> set (verifyHierarchicalCompleteness [?r] sampleConfig [''STK'', ''SYS''])"
    by (simp add: verifyHierarchicalCompleteness_def chainReport_def traceChain_def
        foundTargets_def set_add_all_def getRequirementById_def getAllOutgoingLinks_def
        getTypePrefix_def isLetter_def mkReq_def priorityOrMedium_def orElse_def
        determineCompletenessSeverity_def)
  from incomplete_chain_one_missing_link [of "[?r]" sampleConfig "[''STK'', ''SYS'']"] mem
  have "length (ic_missingLinks ?c) = 1" by blast
  with mem show ?thesis
    by (simp add: priorityOrMedium_def orElse_def mkReq_def)
qed

subsection \<open>Status consistency checker\<close>

lemma find_by_id:
  "distinct (map req_id requirements) \<Longrightarrow> b \<in> set requirements \<Longrightarrow>
   getRequirementById requirements (req_id b) = Some b"
  unfolding getRequirementById_def
  by (induction requirements) (auto simp: rev_image_eqI)

lemma filter_concat_map_single:
  assumes "distinct (map k xs)" and "a \<in> set xs"
    and "\<forall>x \<in> set xs. \<forall>e \<in> set (G x). kk e = k x"
  shows "filter (\<lambda>e. kk e = k a) (concat (map G xs)) = G a"
  using assms
proof (induction xs)
  case Nil
  then show ?case by simp
next
  case (Cons x xs)
  have all: "\<And>y. y \<in> set (x # xs) \<Longrightarrow> filter (\<lambda>e. kk e = k a) (G y) = (if k y = k a then G y else [])"
    using Cons.prems(3) by (auto simp: filter_empty_conv)
  show ?case
  proof (cases "x = a")
    case True
    with Cons.prems(1) have ne: "\<And>y. y \<in> set xs \<Longrightarrow> k y \<noteq> k a"
      by (auto simp: image_iff)
    have "kk e \<noteq> k a" if "e \<in> set (concat (map G xs))" for e
    proof -
      from that obtain y where y: "y \<in> set xs" and e: "e \<in> set (G y)" by auto
      from Cons.prems(3) y e have "kk e = k y" by simp
      with ne [OF y] show ?thesis by simp
    qed
    then have "filter (\<lambda>e. kk e = k a) (concat (map G xs)) = []"
      by (simp add: filter_empty_conv)
    with all [of x] True show ?thesis by simp
  next
    case False
    with Cons.prems have a: "a \<in> set xs" and kx: "k x \<noteq> k a" by auto
    from Cons.IH [OF _ a] Cons.prems have "filter (\<lambda>e. kk e = k a) (concat (map G xs)) = G a"
      by simp
    with all [of x] kx show ?thesis by simp
  qed
qed

lemma linkInconsistency_fromId:
  "e \<in> set (linkInconsistency requirements config req linkType targetId) \<Longrightarrow>
   si_fromId e = req_id req"
  by (auto simp: linkInconsistency_def Let_def split: option.splits)

lemma toLowerCase_approved: "toLowerCase ''approved'' = ''approved''"
  by (simp add: toLowerCase_def lowerChar_def)

lemma toLowerCase_draft: "toLowerCase ''draft'' = ''draft''"
  by (simp add: toLowerCase_def lowerChar_def)

text \<open>
  C8. In a record list with pairwise distinct ids and approved-chain enforcement on, a
  record \<open>a\<close> with status \<^verbatim>\<open>approved\<close> whose one link points to a record \<open>b\<close> with status
  \<^verbatim>\<open>draft\<close> yields exactly one status inconsistency: its violation is
  \<^verbatim>\<open>approved_to_draft\<close>, its chain is \<open>[a, b]\<close>, and it carries both statuses and the
  link type.
\<close>

theorem approved_to_draft_reported:
  assumes "enforceApprovedChain (statusConsistency config)"
    and "distinct (map req_id requirements)"
    and "a \<in> set requirements" and "b \<in> set requirements"
    and "req_status a = Some ''approved''" and "req_status b = Some ''draft''"
    and "links a = [(linkType, [req_id b])]"
  shows "filter (\<lambda>e. si_fromId e = req_id a) (detectStatusInconsistencies requirements config)
       = [\<lparr> si_chain = [req_id a, req_id b],
             si_fromId = req_id a,
             si_toId = req_id b,
             si_fromStatus = ''approved'',
             si_toStatus = ''draft'',
             si_linkType = linkType,
             si_severity = (if priorityOrMedium a = ''critical'' \<or> priorityOrMedium a = ''high''
                            then HIGH else MEDIUM),
             si_violation = approved_to_draft \<rparr>]"
proof -
  let ?G = "\<lambda>req. concat (map (\<lambda>(linkType, targetIds).
         concat (map (linkInconsistency requirements config req linkType) targetIds))
         (links req))"
  have src: "\<forall>x \<in> set requirements. \<forall>e \<in> set (?G x). si_fromId e = req_id x"
    by (auto dest: linkInconsistency_fromId)
  have "filter (\<lambda>e. si_fromId e = req_id a) (concat (map ?G requirements)) = ?G a"
    by (rule filter_concat_map_single [OF assms(2) assms(3) src])
  moreover have "?G a = linkInconsistency requirements config a linkType (req_id b)"
    using assms(7) by simp
  moreover have "getRequirementById requirements (req_id b) = Some b"
    by (rule find_by_id [OF assms(2) assms(4)])
  ultimately show ?thesis
    using assms(1,5,6)
    by (simp add: detectStatusInconsistencies_def linkInconsistency_def orElse_def
        detectStatusViolation_def toLowerCase_approved toLowerCase_draft buildChain_def
        determineStatusInconsistencySeverity_def)
qed

theorem approved_to_draft_reported_witness:
  "detectStatusInconsistencies
     [mkReq ''0001'' ''requirement'' (Some ''approved'') [(''satisfies'', [''0002''])] [],
      mkReq ''0002'' ''requirement'' (Some ''draft'') [] []] sampleConfig
   = [\<lparr> si_chain = [''0001'', ''0002''], si_fromId = ''0001'', si_toId = ''0002'',
         si_fromStatus = ''approved'', si_toStatus = ''draft'', si_linkType = ''satisfies'',
         si_severity = MEDIUM, si_violation = approved_to_draft \<rparr>]"
proof -
  let ?a = "mkReq ''0001'' ''requirement'' (Some ''approved'') [(''satisfies'', [''0002''])] []"
  let ?b = "mkReq ''0002'' ''requirement'' (Some ''draft'') [] []"
  have draft: "detectStatusViolation ''draft'' t sampleConfig = None" for t
    by (simp add: detectStatusViolation_def toLowerCase_draft)
  have all: "filter (\<lambda>e. si_fromId e = req_id ?a) (detectStatusInconsistencies [?a, ?b] sampleConfig)
      = detectStatusInconsistencies [?a, ?b] sampleConfig"
    by (simp add: detectStatusInconsistencies_def mkReq_def linkInconsistency_def
        getRequirementById_def orElse_def Let_def split: option.splits)
  from approved_to_draft_reported [of sampleConfig "[?a, ?b]" ?a ?b "''satisfies''"]
  have "filter (\<lambda>e. si_fromId e = req_id ?a) (detectStatusInconsistencies [?a, ?b] sampleConfig)
      = [\<lparr> si_chain = [''0001'', ''0002''], si_fromId = ''0001'', si_toId = ''0002'',
         si_fromStatus = ''approved'', si_toStatus = ''draft'', si_linkType = ''satisfies'',
         si_severity = MEDIUM, si_violation = approved_to_draft \<rparr>]"
    by (simp add: sampleConfig_def mkReq_def priorityOrMedium_def orElse_def)
  with all show ?thesis by simp
qed

subsection \<open>Coverage\<close>




lemma validTarget_iff:
  "validTarget requirements toTypes targetId \<longleftrightarrow>
     (\<exists>target. find (\<lambda>r. req_id r = targetId) requirements = Some target
        \<and> req_type target \<in> set toTypes)"
  by (simp add: validTarget_def split: option.splits)

lemma coverageLoop_filter:
  "coverageLoop requirements linkType toTypes srcs withLinks missing =
     (withLinks @ filter (hasValidLink requirements linkType toTypes) srcs,
      missing @ map req_id (filter (\<lambda>r. \<not> hasValidLink requirements linkType toTypes r) srcs))"
proof (induction srcs arbitrary: withLinks missing)
  case Nil
  then show ?case by simp
next
  case (Cons req rest)
  show ?case
  proof (cases "map_of (links req) linkType")
    case None
    then have "\<not> hasValidLink requirements linkType toTypes req"
      by (simp add: hasValidLink_def)
    with None Cons.IH show ?thesis by simp
  next
    case (Some ls)
    have "hasValidLink requirements linkType toTypes req \<longleftrightarrow>
          filter (validTarget requirements toTypes) ls \<noteq> []"
      using Some by (auto simp: hasValidLink_def validTarget_iff filter_empty_conv)
    with Some Cons.IH show ?thesis by (auto simp: Let_def)
  qed
qed

lemma calculateCoverageForLinkType_fields:
  "hc_total (calculateCoverageForLinkType requirements linkType fromTypes toTypes threshold)
     = length (filter (\<lambda>req. req_type req \<in> set fromTypes) requirements)"
  "hc_withLinks (calculateCoverageForLinkType requirements linkType fromTypes toTypes threshold)
     = length (filter (hasValidLink requirements linkType toTypes)
         (filter (\<lambda>req. req_type req \<in> set fromTypes) requirements))"
  "hc_missing (calculateCoverageForLinkType requirements linkType fromTypes toTypes threshold)
     = map req_id (filter (\<lambda>r. \<not> hasValidLink requirements linkType toTypes r)
         (filter (\<lambda>req. req_type req \<in> set fromTypes) requirements))"
  "hc_percentage (calculateCoverageForLinkType requirements linkType fromTypes toTypes threshold)
     = (let total = length (filter (\<lambda>req. req_type req \<in> set fromTypes) requirements);
            covered = length (filter (hasValidLink requirements linkType toTypes)
               (filter (\<lambda>req. req_type req \<in> set fromTypes) requirements))
        in if total > 0 then Math_round ((real covered / real total) * 100) else 0)"
  "hc_meets_threshold (calculateCoverageForLinkType requirements linkType fromTypes toTypes threshold)
     = (real_of_int (hc_percentage
          (calculateCoverageForLinkType requirements linkType fromTypes toTypes threshold))
        \<ge> threshold)"
  by (simp_all add: calculateCoverageForLinkType_def coverageLoop_filter Let_def)


text \<open>
  C5 (amended). For three records with pairwise distinct ids, where \<open>A\<close> has an
  \<^verbatim>\<open>implements\<close> link to \<open>B\<close>, \<open>B\<close> has one to \<open>C\<close>, and the type of \<open>C\<close> is neither the
  type of \<open>A\<close> nor the type of \<open>B\<close>, the rule with source types \<open>[typeOf A, typeOf B]\<close>,
  target types \<open>[typeOf B, typeOf C]\<close> and threshold 80 reports total 2, covered 2,
  percentage 100, threshold met and nothing missing (whatever links \<open>C\<close> has). For every
  rule and record list, the covered records are exactly the source records with at least one
  link of the type whose target exists and has a target type; every other source record is
  listed as missing.
\<close>

theorem hierarchical_coverage_chain:
  "(distinct [req_id A, req_id B, req_id C]
      \<and> req_type C \<noteq> req_type A \<and> req_type C \<noteq> req_type B
      \<and> (\<exists>la. map_of (links A) ''implements'' = Some la \<and> req_id B \<in> set la)
      \<and> (\<exists>lb. map_of (links B) ''implements'' = Some lb \<and> req_id C \<in> set lb)
    \<longrightarrow> (let r = calculateCoverageForLinkType [A, B, C] ''implements''
                     [req_type A, req_type B] [req_type B, req_type C] 80
         in hc_total r = 2 \<and> hc_withLinks r = 2 \<and> hc_percentage r = 100
          \<and> hc_meets_threshold r \<and> hc_missing r = []))
   \<and> (let r = calculateCoverageForLinkType requirements linkType fromTypes toTypes threshold;
           sources = filter (\<lambda>req. req_type req \<in> set fromTypes) requirements
       in hc_total r = length sources
        \<and> hc_withLinks r = length (filter (hasValidLink requirements linkType toTypes) sources)
        \<and> hc_missing r
            = map req_id (filter (\<lambda>req. \<not> hasValidLink requirements linkType toTypes req) sources))"
proof (intro conjI impI)
  assume h: "distinct [req_id A, req_id B, req_id C]
      \<and> req_type C \<noteq> req_type A \<and> req_type C \<noteq> req_type B
      \<and> (\<exists>la. map_of (links A) ''implements'' = Some la \<and> req_id B \<in> set la)
      \<and> (\<exists>lb. map_of (links B) ''implements'' = Some lb \<and> req_id C \<in> set lb)"
  let ?tt = "[req_type B, req_type C]"
  have src: "filter (\<lambda>req. req_type req \<in> set [req_type A, req_type B]) [A, B, C] = [A, B]"
    using h by simp
  have fB: "find (\<lambda>r. req_id r = req_id B) [A, B, C] = Some B"
    and fC: "find (\<lambda>r. req_id r = req_id C) [A, B, C] = Some C"
    using h by auto
  have cA: "hasValidLink [A, B, C] ''implements'' ?tt A"
    unfolding hasValidLink_def using h fB by auto
  have cB: "hasValidLink [A, B, C] ''implements'' ?tt B"
    unfolding hasValidLink_def using h fC by auto
  show "let r = calculateCoverageForLinkType [A, B, C] ''implements''
                     [req_type A, req_type B] [req_type B, req_type C] 80
         in hc_total r = 2 \<and> hc_withLinks r = 2 \<and> hc_percentage r = 100
          \<and> hc_meets_threshold r \<and> hc_missing r = []"
    unfolding Let_def calculateCoverageForLinkType_fields src
    using cA cB by (simp add: Math_round_def)
next
  show "let r = calculateCoverageForLinkType requirements linkType fromTypes toTypes threshold;
           sources = filter (\<lambda>req. req_type req \<in> set fromTypes) requirements
       in hc_total r = length sources
        \<and> hc_withLinks r = length (filter (hasValidLink requirements linkType toTypes) sources)
        \<and> hc_missing r
            = map req_id (filter (\<lambda>req. \<not> hasValidLink requirements linkType toTypes req) sources)"
    by (simp add: calculateCoverageForLinkType_fields Let_def)
qed

theorem hierarchical_coverage_chain_witness:
  "distinct [req_id exA, req_id exB, req_id exC]
   \<and> req_type exC \<noteq> req_type exA \<and> req_type exC \<noteq> req_type exB
   \<and> map_of (links exA) ''implements'' = Some [req_id exB]
   \<and> map_of (links exB) ''implements'' = Some [req_id exC]
   \<and> hc_total (calculateCoverageForLinkType [exA, exB, exC] ''implements''
                     [req_type exA, req_type exB] [req_type exB, req_type exC] 80) = 2
   \<and> hc_percentage (calculateCoverageForLinkType [exA, exB, exC] ''implements''
                     [req_type exA, req_type exB] [req_type exB, req_type exC] 80) = 100"
proof -
  have h: "distinct [req_id exA, req_id exB, req_id exC]
      \<and> req_type exC \<noteq> req_type exA \<and> req_type exC \<noteq> req_type exB
      \<and> (\<exists>la. map_of (links exA) ''implements'' = Some la \<and> req_id exB \<in> set la)
      \<and> (\<exists>lb. map_of (links exB) ''implements'' = Some lb \<and> req_id exC \<in> set lb)"
    by (simp add: exA_def exB_def exC_def mkReq_def)
  from hierarchical_coverage_chain [of exA exB exC "[]" "[]" "[]" "[]" 0, THEN conjunct1, rule_format, OF h]
  show ?thesis
    by (simp add: Let_def) (simp add: exA_def exB_def exC_def mkReq_def)
qed

text \<open>
  C5 as stated fails when \<open>C\<close> has the type of \<open>A\<close> or \<open>B\<close>: then \<open>C\<close> is a source record
  too, and with no link it is missing. With one type for all three records the rule
  reports total 3, covered 2, percentage 67, threshold not met.
\<close>

theorem hierarchical_coverage_same_type_counterexample:
  "map_of (links sameA) ''implements'' = Some [req_id sameB]
   \<and> map_of (links sameB) ''implements'' = Some [req_id sameC]
   \<and> links sameC = []
   \<and> calculateCoverageForLinkType [sameA, sameB, sameC] ''implements''
        [req_type sameA, req_type sameB] [req_type sameB, req_type sameC] 80
      = \<lparr> hc_linkType = ''implements'',
           hc_fromTypes = [''requirement'', ''requirement''],
           hc_toTypes = [''requirement'', ''requirement''],
           hc_total = 3, hc_withLinks = 2, hc_percentage = 67, hc_threshold = 80,
           hc_meets_threshold = False, hc_missing = [''C''] \<rparr>"
  by (simp add: calculateCoverageForLinkType_def sameA_def sameB_def sameC_def mkReq_def
      validTarget_def Math_round_def)






subsection \<open>Orphan classifier\<close>


lemma set_foldl_set_add: "set (foldl set_add s xs) = set s \<union> set xs"
  by (induction xs arbitrary: s) (auto simp: set_add_def)

lemma distinct_foldl_set_add: "distinct s \<Longrightarrow> distinct (foldl set_add s xs)"
  by (induction xs arbitrary: s) (auto simp: set_add_def)

lemma set_set_add_all: "set (set_add_all s xs) = set s \<union> set xs"
  by (simp add: set_add_all_def set_foldl_set_add)

lemma distinct_set_add_all: "distinct s \<Longrightarrow> distinct (set_add_all s xs)"
  by (simp add: set_add_all_def distinct_foldl_set_add)

lemma set_getAllIncomingLinks:
  "set (getAllIncomingLinks requirements i) =
     {j. j \<noteq> i \<and> ((\<exists>r \<in> set requirements. req_id r = i \<and> j \<in> set (getAllOutgoingLinks r))
                 \<or> (\<exists>r \<in> set requirements. req_id r = j \<and> i \<in> set (getAllOutgoingLinks r)))}"
  by (auto simp: getAllIncomingLinks_def linkNeighbours_def set_set_add_all)

lemma distinct_getAllIncomingLinks: "distinct (getAllIncomingLinks requirements i)"
  by (simp add: getAllIncomingLinks_def linkNeighbours_def distinct_set_add_all)

lemma linkGraph_foldl_upsert:
  "distinct (map req_id rs) \<Longrightarrow> \<forall>r \<in> set rs. objects idx (req_id r) = None \<Longrightarrow>
   x \<in> linkGraph (foldl upsert idx rs) y \<longleftrightarrow>
     x \<in> linkGraph idx y
   \<or> (\<exists>r \<in> set rs. (y = req_id r \<and> x \<in> set (getAllOutgoingLinks r))
                   \<or> (x = req_id r \<and> y \<in> set (getAllOutgoingLinks r)))"
proof (induction rs arbitrary: idx)
  case Nil
  then show ?case by simp
next
  case (Cons r rs)
  from Cons.prems(2) have fresh: "objects idx (req_id r) = None" by simp
  then have same: "removeRecord idx (req_id r) = idx" by (simp add: removeRecord_def)
  have obj: "objects (upsert idx r) = (objects idx)(req_id r \<mapsto> r)"
    by (simp add: upsert_def Let_def same)
  have "\<forall>r' \<in> set rs. objects (upsert idx r) (req_id r') = None"
    using Cons.prems by (auto simp: obj image_iff)
  from Cons.IH [OF _ this] Cons.prems(1)
  have "x \<in> linkGraph (foldl upsert (upsert idx r) rs) y \<longleftrightarrow>
     x \<in> linkGraph (upsert idx r) y
   \<or> (\<exists>r \<in> set rs. (y = req_id r \<and> x \<in> set (getAllOutgoingLinks r))
                   \<or> (x = req_id r \<and> y \<in> set (getAllOutgoingLinks r)))" by simp
  then show ?case
    by (auto simp: linkGraph_upsert same)
qed

lemma incoming_is_linkGraph:
  assumes "distinct (map req_id requirements)"
  shows "set (getAllIncomingLinks requirements i)
       = linkGraph (foldl upsert emptyIndex requirements) i - {i}"
proof -
  have "\<forall>r \<in> set requirements. objects emptyIndex (req_id r) = None"
    by (simp add: emptyIndex_def)
  from linkGraph_foldl_upsert [OF assms this]
  have "\<And>x. x \<in> linkGraph (foldl upsert emptyIndex requirements) i \<longleftrightarrow>
     (\<exists>r \<in> set requirements. (i = req_id r \<and> x \<in> set (getAllOutgoingLinks r))
                   \<or> (x = req_id r \<and> i \<in> set (getAllOutgoingLinks r)))"
    by (simp add: emptyIndex_def)
  then show ?thesis
    unfolding set_getAllIncomingLinks by blast
qed

text \<open>
  C6. The reports of \<^verbatim>\<open>detectOrphanedRequirements\<close> are, record by record and in order:
  \<^verbatim>\<open>true_orphan\<close> when both degrees are 0, \<^verbatim>\<open>dead_end\<close> when only the out-degree is 0,
  \<^verbatim>\<open>source_only\<close> when only the in-degree is 0, and nothing otherwise. The out-degree
  counts the outgoing links of all link types; in a list with distinct ids the in-degree
  is the number of ids in the \<^verbatim>\<open>linkGraph\<close> entry of the record (of the index built
  from the list), the record itself excluded, and a record without links that no record
  links to is reported as \<^verbatim>\<open>true_orphan\<close>.
\<close>

theorem orphan_classification:
  "map (\<lambda>e. (or_id e, or_category e, or_outgoingCount e, or_incomingCount e))
       (detectOrphanedRequirements requirements config)
     = concat (map (\<lambda>req.
         let outDegree = length (getAllOutgoingLinks req);
             inDegree = length (getAllIncomingLinks requirements (req_id req))
         in if outDegree = 0 \<and> inDegree = 0 then [(req_id req, true_orphan, outDegree, inDegree)]
            else if outDegree = 0 \<and> inDegree > 0 then [(req_id req, dead_end, outDegree, inDegree)]
            else if outDegree > 0 \<and> inDegree = 0 then [(req_id req, source_only, outDegree, inDegree)]
            else []) requirements)
   \<and> length (getAllOutgoingLinks r) = (\<Sum>(linkType, targetIds) \<leftarrow> links r. length targetIds)
   \<and> (distinct (map req_id requirements) \<longrightarrow>
        length (getAllIncomingLinks requirements i)
          = card (linkGraph (foldl upsert emptyIndex requirements) i - {i}))
   \<and> (distinct (map req_id requirements) \<and> d \<in> set requirements \<and> links d = []
        \<and> (\<forall>r \<in> set requirements. req_id d \<notin> set (getAllOutgoingLinks r))
      \<longrightarrow> (\<exists>e \<in> set (detectOrphanedRequirements requirements config).
             or_id e = req_id d \<and> or_category e = true_orphan
           \<and> or_outgoingCount e = 0 \<and> or_incomingCount e = 0))"
proof (intro conjI impI)
  show "map (\<lambda>e. (or_id e, or_category e, or_outgoingCount e, or_incomingCount e))
       (detectOrphanedRequirements requirements config)
     = concat (map (\<lambda>req.
         let outDegree = length (getAllOutgoingLinks req);
             inDegree = length (getAllIncomingLinks requirements (req_id req))
         in if outDegree = 0 \<and> inDegree = 0 then [(req_id req, true_orphan, outDegree, inDegree)]
            else if outDegree = 0 \<and> inDegree > 0 then [(req_id req, dead_end, outDegree, inDegree)]
            else if outDegree > 0 \<and> inDegree = 0 then [(req_id req, source_only, outDegree, inDegree)]
            else []) requirements)"
    unfolding detectOrphanedRequirements_def map_concat map_map
    by (rule arg_cong [where f = concat], rule map_cong [OF refl])
       (simp add: orphanReport_def orphanCategory_def Let_def)
next
  show "length (getAllOutgoingLinks r) = (\<Sum>(linkType, targetIds) \<leftarrow> links r. length targetIds)"
    unfolding getAllOutgoingLinks_def
    by (induction "links r" arbitrary: r) (auto simp: length_concat comp_def case_prod_unfold)
next
  assume "distinct (map req_id requirements)"
  from incoming_is_linkGraph [OF this, of i]
  show "length (getAllIncomingLinks requirements i)
          = card (linkGraph (foldl upsert emptyIndex requirements) i - {i})"
    using distinct_card [OF distinct_getAllIncomingLinks, of requirements i] by simp
next
  assume h: "distinct (map req_id requirements) \<and> d \<in> set requirements \<and> links d = []
        \<and> (\<forall>r \<in> set requirements. req_id d \<notin> set (getAllOutgoingLinks r))"
  then have out: "getAllOutgoingLinks d = []" by (simp add: getAllOutgoingLinks_def)
  have same: "r = d" if "r \<in> set requirements" and "req_id r = req_id d" for r
    using h that by (auto simp: distinct_map dest: inj_onD)
  have "set (getAllIncomingLinks requirements (req_id d)) = {}"
    unfolding set_getAllIncomingLinks using h out by (auto dest: same)
  then have inc: "getAllIncomingLinks requirements (req_id d) = []" by simp
  have "orphanReport requirements config d \<noteq> []"
    by (simp add: orphanReport_def out inc orphanCategory_def)
  then obtain e where e: "orphanReport requirements config d = [e]"
    by (auto simp: orphanReport_def Let_def split: option.splits)
  then have "or_id e = req_id d \<and> or_category e = true_orphan
           \<and> or_outgoingCount e = 0 \<and> or_incomingCount e = 0"
    by (auto simp: orphanReport_def out inc orphanCategory_def)
  moreover from e h have "e \<in> set (detectOrphanedRequirements requirements config)"
    by (auto simp: detectOrphanedRequirements_def intro!: bexI [of _ d])
  ultimately show "\<exists>e \<in> set (detectOrphanedRequirements requirements config).
             or_id e = req_id d \<and> or_category e = true_orphan
           \<and> or_outgoingCount e = 0 \<and> or_incomingCount e = 0"
    by blast
qed

theorem orphan_classification_witness:
  "distinct (map req_id [exD, exA, exB, exC]) \<and> exD \<in> set [exD, exA, exB, exC] \<and> links exD = []
   \<and> list_all (\<lambda>r. req_id exD \<notin> set (getAllOutgoingLinks r)) [exD, exA, exB, exC]
   \<and> map (\<lambda>e. (or_id e, or_category e, or_outgoingCount e, or_incomingCount e))
        (detectOrphanedRequirements [exD, exA, exB, exC] sampleConfig)
     = [(''D'', true_orphan, 0, 0), (''C'', dead_end, 0, 1)]"
proof -
  have h: "distinct (map req_id [exD, exA, exB, exC]) \<and> exD \<in> set [exD, exA, exB, exC]
     \<and> links exD = []
     \<and> (\<forall>r \<in> set [exD, exA, exB, exC]. req_id exD \<notin> set (getAllOutgoingLinks r))"
    by (simp add: exA_def exB_def exC_def exD_def mkReq_def getAllOutgoingLinks_def)
  note inst = orphan_classification [where requirements = "[exD, exA, exB, exC]" and d = exD
      and config = sampleConfig]
  from inst h have "\<exists>e \<in> set (detectOrphanedRequirements [exD, exA, exB, exC] sampleConfig).
             or_id e = req_id exD \<and> or_category e = true_orphan
           \<and> or_outgoingCount e = 0 \<and> or_incomingCount e = 0"
    by blast
  moreover from inst have "map (\<lambda>e. (or_id e, or_category e, or_outgoingCount e, or_incomingCount e))
        (detectOrphanedRequirements [exD, exA, exB, exC] sampleConfig)
     = [(''D'', true_orphan, 0, 0), (''C'', dead_end, 0, 1)]"
    by (simp add: exA_def exB_def exC_def exD_def mkReq_def getAllOutgoingLinks_def
        getAllIncomingLinks_def linkNeighbours_def set_add_all_def set_add_def)
  ultimately show ?thesis using h by (simp add: list_all_iff)
qed

subsection \<open>Gap recommendations\<close>


lemma recBefore_iff: "compareRecommendations a b \<le> 0 \<longleftrightarrow> recBefore a b"
  by (cases "gr_severity a"; cases "gr_severity b")
     (auto simp: recBefore_def compareRecommendations_def Let_def)

lemma recBefore_trans: "recBefore a b \<Longrightarrow> recBefore b c \<Longrightarrow> recBefore a c"
  unfolding recBefore_def by auto

lemma compare_neg: "compareRecommendations x y < 0 \<Longrightarrow> recBefore x y"
  using recBefore_iff [of x y] by simp

lemma compare_nonneg: "\<not> compareRecommendations x y < 0 \<Longrightarrow> recBefore y x"
  unfolding recBefore_iff [symmetric]
  by (cases "gr_severity x"; cases "gr_severity y")
     (auto simp: compareRecommendations_def Let_def split: if_splits)

lemma set_insertSorted: "set (insertSorted cmp x ys) = insert x (set ys)"
  by (induction ys) auto

lemma length_insertSorted: "length (insertSorted cmp x ys) = Suc (length ys)"
  by (induction ys) auto

lemma sorted_insertSorted:
  "sorted_wrt recBefore ys \<Longrightarrow> sorted_wrt recBefore (insertSorted compareRecommendations x ys)"
proof (induction ys)
  case Nil
  then show ?case by simp
next
  case (Cons y ys)
  show ?case
  proof (cases "compareRecommendations x y < 0")
    case True
    then have xy: "recBefore x y" by (rule compare_neg)
    with Cons.prems have "\<forall>z \<in> set ys. recBefore x z"
      by (auto intro: recBefore_trans)
    with True xy Cons.prems show ?thesis by simp
  next
    case False
    then have "recBefore y x" by (rule compare_nonneg)
    with False Cons show ?thesis by (auto simp: set_insertSorted)
  qed
qed

lemma sorted_foldl_insertSorted:
  "sorted_wrt recBefore acc \<Longrightarrow>
   sorted_wrt recBefore (foldl (\<lambda>acc x. insertSorted compareRecommendations x acc) acc xs)"
  by (induction xs arbitrary: acc) (auto intro: sorted_insertSorted)

lemma sorted_sortWith: "sorted_wrt recBefore (sortWith compareRecommendations xs)"
  unfolding sortWith_def by (rule sorted_foldl_insertSorted) simp

lemma length_foldl_insertSorted:
  "length (foldl (\<lambda>acc x. insertSorted cmp x acc) acc xs) = length acc + length xs"
  by (induction xs arbitrary: acc) (auto simp: length_insertSorted)

lemma length_sortWith: "length (sortWith cmp xs) = length xs"
  by (simp add: sortWith_def length_foldl_insertSorted)

lemma length_assignPriorities: "length (assignPriorities recs) = length recs"
  by (simp add: assignPriorities_def)

lemma nth_assignPriorities:
  "i < length recs \<Longrightarrow> assignPriorities recs ! i = (recs ! i)\<lparr> gr_priority := i + 1 \<rparr>"
  by (simp add: assignPriorities_def nth_enumerate_eq)

text \<open>
  C9. In the list that \<^verbatim>\<open>generateGapRecommendations\<close> returns, an earlier recommendation
  never has a higher severity rank number than a later one (BLOCKER 0, HIGH 1, MEDIUM 2,
  LOW 3, INFO 4), equal severities are in descending order of \<^verbatim>\<open>affectedCount\<close>, and the
  recommendation at index \<open>i\<close> (from 0) has priority \<open>i + 1\<close>.
\<close>

theorem recommendations_ranked:
  "(\<forall>i j. i < j \<and> j < length (generateGapRecommendations report requirements) \<longrightarrow>
        severityOrder (gr_severity (generateGapRecommendations report requirements ! i))
          \<le> severityOrder (gr_severity (generateGapRecommendations report requirements ! j))
      \<and> (gr_severity (generateGapRecommendations report requirements ! i)
           = gr_severity (generateGapRecommendations report requirements ! j)
         \<longrightarrow> gr_affectedCount (generateGapRecommendations report requirements ! j)
               \<le> gr_affectedCount (generateGapRecommendations report requirements ! i)))
   \<and> (\<forall>i < length (generateGapRecommendations report requirements).
        gr_priority (generateGapRecommendations report requirements ! i) = i + 1)"
proof -
  obtain recs where g: "generateGapRecommendations report requirements
      = assignPriorities (sortWith compareRecommendations recs)"
    by (simp add: generateGapRecommendations_def Let_def)
  let ?s = "sortWith compareRecommendations recs"
  have sorted: "sorted_wrt recBefore ?s" by (rule sorted_sortWith)
  have ord: "recBefore (?s ! i) (?s ! j)" if "i < j" "j < length ?s" for i j
    using sorted that by (simp add: sorted_wrt_iff_nth_less)
  show ?thesis
  proof (intro conjI allI impI)
    fix i j
    assume ij: "i < j \<and> j < length (generateGapRecommendations report requirements)"
    then have j: "j < length ?s" and i: "i < length ?s"
      by (simp_all add: g length_assignPriorities)
    from ord [of i j] ij j have b: "recBefore (?s ! i) (?s ! j)" by simp
    from b show "severityOrder (gr_severity (generateGapRecommendations report requirements ! i))
          \<le> severityOrder (gr_severity (generateGapRecommendations report requirements ! j))"
      unfolding g by (auto simp: nth_assignPriorities i j recBefore_def)
    assume "gr_severity (generateGapRecommendations report requirements ! i)
           = gr_severity (generateGapRecommendations report requirements ! j)"
    with b show "gr_affectedCount (generateGapRecommendations report requirements ! j)
               \<le> gr_affectedCount (generateGapRecommendations report requirements ! i)"
      unfolding g by (auto simp: nth_assignPriorities i j recBefore_def)
  next
    fix i
    assume "i < length (generateGapRecommendations report requirements)"
    then show "gr_priority (generateGapRecommendations report requirements ! i) = i + 1"
      unfolding g by (simp add: length_assignPriorities nth_assignPriorities)
  qed
qed

theorem recommendations_ranked_witness:
  "(1::nat) < 2 \<and> 2 < length (generateGapRecommendations exReport [])
   \<and> severityOrder (gr_severity (generateGapRecommendations exReport [] ! 1))
       \<le> severityOrder (gr_severity (generateGapRecommendations exReport [] ! 2))
   \<and> gr_priority (generateGapRecommendations exReport [] ! 2) = 3
   \<and> map (\<lambda>r. (gr_severity r, gr_category r, gr_affectedCount r, gr_priority r))
        (generateGapRecommendations exReport [])
     = [(HIGH, CIRCULAR_DEPENDENCY, 2, 1), (HIGH, COMPLETENESS, 1, 2),
        (MEDIUM, STATUS_CONSISTENCY, 1, 3)]"
proof -
  have val: "map (\<lambda>r. (gr_severity r, gr_category r, gr_affectedCount r, gr_priority r))
        (generateGapRecommendations exReport [])
     = [(HIGH, CIRCULAR_DEPENDENCY, 2, 1), (HIGH, COMPLETENESS, 1, 2),
        (MEDIUM, STATUS_CONSISTENCY, 1, 3)]"
    by (simp add: generateGapRecommendations_def exReport_def analyzeCircularDependencies_def
        analyzeCoverageGaps_def analyzeOrphanedRequirements_def analyzeStatusInconsistencies_def
        analyzeIncompleteChains_def analyzePriorityCoverage_def analyzeBaselineIssues_def
        set_add_all_def set_add_def sortWith_def compareRecommendations_def
        assignPriorities_def Let_def)
  from arg_cong [OF val, of length] have len: "length (generateGapRecommendations exReport []) = 3"
    by simp
  from recommendations_ranked [of exReport "[]"] len
  have "severityOrder (gr_severity (generateGapRecommendations exReport [] ! 1))
       \<le> severityOrder (gr_severity (generateGapRecommendations exReport [] ! 2))"
    and "gr_priority (generateGapRecommendations exReport [] ! 2) = 3"
    by auto
  with val len show ?thesis by simp
qed

subsection \<open>Canonical cycles\<close>









subsection \<open>Cycle detector\<close>

text \<open>
  C1, at the two-record cycle. The path that \<^verbatim>\<open>findCyclePath\<close> returns repeats its first
  node at the end, and \<^verbatim>\<open>determineCycleSeverity\<close> receives the length of that path: for
  \<open>A -> B\<close>, \<open>B -> A\<close> the path has three entries, the reported length is 2 and, with the
  default severities, the severity is MEDIUM, for every recursion bound of at least 2.
\<close>

theorem two_node_cycle_severity:
  "detectCircularDependencies (Suc (Suc depth)) [cycA, cycB] sampleConfig
     = Some [\<lparr> cd_cycle = [''B'', ''A'', ''B''], cd_length = 2, cd_severity = MEDIUM,
               cd_linkTypes = [''links''] \<rparr>]"
  by (simp add: detectCircularDependencies_def buildGraph_def cycA_def cycB_def mkReq_def
      findStronglyConnectedComponents_def initialTarjanState_def neighborsOf_def
      set_add_all_def set_add_def sccCycles_def findCyclePath_def getCycleLinkTypes_def
      determineCycleSeverity_def sampleConfig_def DEFAULT_cycleSeverity_def Let_def
      pushNode_def popComponent_def enterNode_def)

text \<open>Termination of the two recursions, and what they keep.\<close>

lemma finite_graphNodes: "finite (graphNodes graph)"
  by (simp add: graphNodes_def)

lemma neighbors_in_graphNodes:
  "map_of graph v = Some edges \<Longrightarrow> set (neighborsOf edges) \<subseteq> graphNodes graph"
  by (auto simp: graphNodes_def dest!: map_of_SomeD intro!: bexI [of _ "(v, edges)"])

lemma keys_in_graphNodes: "set (map fst graph) \<subseteq> graphNodes graph"
  by (auto simp: graphNodes_def)

lemma extends_refl: "extends st st"
  by (simp add: extends_def)

lemma extends_trans: "extends a b \<Longrightarrow> extends b c \<Longrightarrow> extends a c"
  by (auto simp: extends_def)

lemma popUntil_SomeD:
  "popUntil v s on acc = Some (s', on', scc) \<Longrightarrow>
   \<exists>pre. s = pre @ v # s' \<and> v \<notin> set pre \<and> scc = acc @ pre @ [v]"
proof (induction s arbitrary: on acc)
  case Nil
  then show ?case by simp
next
  case (Cons w s)
  show ?case
  proof (cases "w = v")
    case True
    with Cons.prems show ?thesis by (auto intro: exI [of _ "[]"])
  next
    case False
    with Cons.prems have "popUntil v s (on - {w}) (acc @ [w]) = Some (s', on', scc)" by simp
    from Cons.IH [OF this] obtain pre where
      "s = pre @ v # s'" "v \<notin> set pre" "scc = (acc @ [w]) @ pre @ [v]" by blast
    with False show ?thesis by (auto intro: exI [of _ "w # pre"])
  qed
qed

lemma popUntil_total:
  "v \<in> set s \<Longrightarrow> \<exists>res. popUntil v s on acc = Some res"
  by (induction s arbitrary: on acc) auto

lemma suffix_after_first:
  "zs @ v # S = pre @ v # T \<Longrightarrow> v \<notin> set pre \<Longrightarrow> \<exists>ws. T = ws @ S"
proof (induction pre arbitrary: zs)
  case Nil
  then show ?case by (cases zs) auto
next
  case (Cons p pre)
  then show ?case by (cases zs) auto
qed

lemma popComponent_total:
  assumes "ts_stack st = zs @ v # S"
  shows "\<exists>st'. popComponent v st = Some st' \<and> ts_indices st' = ts_indices st
           \<and> (\<exists>ws. ts_stack st' = ws @ S)
           \<and> (nodesInGraph graph st \<longrightarrow> nodesInGraph graph st')"
proof (cases "ts_lowLinks st v = ts_indices st v")
  case False
  with assms show ?thesis by (auto simp: popComponent_def)
next
  case True
  from assms have "v \<in> set (ts_stack st)" by simp
  from popUntil_total [OF this] obtain s' on' scc where
    p: "popUntil v (ts_stack st) (ts_onStack st) [] = Some (s', on', scc)"
    by (metis prod_cases3)
  from popUntil_SomeD [OF p] obtain pre where
    pre: "ts_stack st = pre @ v # s'" "v \<notin> set pre" "scc = pre @ [v]" by auto
  from pre(1,2) assms suffix_after_first [of zs v S pre s'] obtain ws where "s' = ws @ S"
    by auto
  moreover have "nodesInGraph graph st \<longrightarrow>
      nodesInGraph graph (st\<lparr> ts_stack := s', ts_onStack := on', ts_sccs := ts_sccs st @ [scc] \<rparr>)"
    using pre by (auto simp: nodesInGraph_def)
  ultimately show ?thesis using True p by (simp add: popComponent_def)
qed

lemma lowLinks_update_simps [simp]:
  "extends st (s\<lparr> ts_lowLinks := f \<rparr>) = extends st s"
  "extends (s\<lparr> ts_lowLinks := f \<rparr>) st' = extends s st'"
  "nodesInGraph graph (s\<lparr> ts_lowLinks := f \<rparr>) = nodesInGraph graph s"
  by (simp_all add: extends_def nodesInGraph_def)

lemma visitNeighbors_total:
  assumes rec: "\<And>w s. w \<in> N \<Longrightarrow> ts_indices s w = None \<Longrightarrow> card (N - dom (ts_indices s)) \<le> d \<Longrightarrow>
             \<exists>s'. recurse w s = Some s' \<and> extends s s' \<and> (nodesInGraph graph s \<longrightarrow> nodesInGraph graph s')"
    and fin: "finite N"
  shows "set nbrs \<subseteq> N \<Longrightarrow> card (N - dom (ts_indices st)) \<le> d \<Longrightarrow>
         \<exists>st'. visitNeighbors recurse node nbrs st = Some st' \<and> extends st st'
            \<and> (nodesInGraph graph st \<longrightarrow> nodesInGraph graph st')"
proof (induction nbrs arbitrary: st)
  case Nil
  show ?case using extends_refl [of st] by simp
next
  case (Cons w rest)
  from Cons.prems(1) have wN: "w \<in> N" and restN: "set rest \<subseteq> N" by simp_all
  have step: "\<exists>st'. visitNeighbors recurse node rest s = Some st' \<and> extends st st'
            \<and> (nodesInGraph graph st \<longrightarrow> nodesInGraph graph st')"
    if e: "extends st s" and n: "nodesInGraph graph st \<longrightarrow> nodesInGraph graph s" for s
  proof -
    from e have "N - dom (ts_indices s) \<subseteq> N - dom (ts_indices st)"
      unfolding extends_def by blast
    with fin have "card (N - dom (ts_indices s)) \<le> card (N - dom (ts_indices st))"
      by (intro card_mono) simp_all
    with Cons.prems(2) have c: "card (N - dom (ts_indices s)) \<le> d" by linarith
    from Cons.IH [OF restN c] obtain st' where r: "visitNeighbors recurse node rest s = Some st'"
      and e': "extends s st'" and n': "nodesInGraph graph s \<longrightarrow> nodesInGraph graph st'"
      by blast
    from extends_trans [OF e e'] n n' r show ?thesis by blast
  qed
  show ?case
  proof (cases "ts_indices st w = None")
    case True
    from rec [OF wN True Cons.prems(2)] obtain s' where
      s': "recurse w st = Some s'" and es: "extends st s'"
      and ns: "nodesInGraph graph st \<longrightarrow> nodesInGraph graph s'"
      by blast
    let ?s = "s'\<lparr> ts_lowLinks := (ts_lowLinks s')
                         (node \<mapsto> min (the (ts_lowLinks s' node)) (the (ts_lowLinks s' w))) \<rparr>"
    have "extends st ?s" and "nodesInGraph graph st \<longrightarrow> nodesInGraph graph ?s"
      using es ns by simp_all
    from step [OF this] have "\<exists>st'. visitNeighbors recurse node rest ?s = Some st' \<and> extends st st'
            \<and> (nodesInGraph graph st \<longrightarrow> nodesInGraph graph st')" .
    moreover have "visitNeighbors recurse node (w # rest) st = visitNeighbors recurse node rest ?s"
      using True s' by simp
    ultimately show ?thesis by simp
  next
    case False
    show ?thesis
    proof (cases "w \<in> ts_onStack st")
      case True
      let ?s = "st\<lparr> ts_lowLinks := (ts_lowLinks st)
                    (node \<mapsto> min (the (ts_lowLinks st node)) (the (ts_indices st w))) \<rparr>"
      have "extends st ?s" and "nodesInGraph graph st \<longrightarrow> nodesInGraph graph ?s"
        using extends_refl [of st] by simp_all
      from step [OF this] have "\<exists>st'. visitNeighbors recurse node rest ?s = Some st' \<and> extends st st'
            \<and> (nodesInGraph graph st \<longrightarrow> nodesInGraph graph st')" .
      moreover have "visitNeighbors recurse node (w # rest) st = visitNeighbors recurse node rest ?s"
        by (simp only: visitNeighbors.simps False True if_False if_True)
      ultimately show ?thesis by simp
    next
      case notOn: False
      have "extends st st" and "nodesInGraph graph st \<longrightarrow> nodesInGraph graph st"
        using extends_refl [of st] by simp_all
      from step [OF this] have "\<exists>st'. visitNeighbors recurse node rest st = Some st' \<and> extends st st'
            \<and> (nodesInGraph graph st \<longrightarrow> nodesInGraph graph st')" .
      moreover have "visitNeighbors recurse node (w # rest) st = visitNeighbors recurse node rest st"
        by (simp only: visitNeighbors.simps False notOn if_False)
      ultimately show ?thesis by simp
    qed
  qed
qed

lemma pushNode_simps [simp]:
  "ts_indices (pushNode v st) = (ts_indices st)(v \<mapsto> ts_index st)"
  "ts_stack (pushNode v st) = v # ts_stack st"
  "ts_sccs (pushNode v st) = ts_sccs st"
  by (simp_all add: pushNode_def)

lemma strongConnect_total:
  "v \<in> graphNodes graph \<Longrightarrow> ts_indices st v = None \<Longrightarrow>
   card (graphNodes graph - dom (ts_indices st)) \<le> d \<Longrightarrow>
   \<exists>st'. strongConnect d graph v st = Some st' \<and> extends st st' \<and> ts_indices st' v \<noteq> None
      \<and> (nodesInGraph graph st \<longrightarrow> nodesInGraph graph st')"
proof (induction d arbitrary: v st)
  case 0
  from 0(1,2) have "v \<in> graphNodes graph - dom (ts_indices st)" by blast
  moreover have "finite (graphNodes graph - dom (ts_indices st))"
    using finite_graphNodes [of graph] by simp
  ultimately have "card (graphNodes graph - dom (ts_indices st)) \<noteq> 0"
    by (simp only: card_eq_0_iff) blast
  with 0(3) show ?case by simp
next
  case (Suc d)
  let ?N = "graphNodes graph"
  let ?s1 = "pushNode v st"
  have "?N - dom (ts_indices ?s1) = (?N - dom (ts_indices st)) - {v}"
    by (simp only: pushNode_simps dom_fun_upd) auto
  moreover from Suc.prems(1,2) have "v \<in> ?N - dom (ts_indices st)" by blast
  moreover have "finite (?N - dom (ts_indices st))" using finite_graphNodes [of graph] by simp
  ultimately have "card (?N - dom (ts_indices ?s1)) = card (?N - dom (ts_indices st)) - 1"
    by (simp only: card_Diff_singleton)
  with Suc.prems(3) have c1: "card (?N - dom (ts_indices ?s1)) \<le> d" by linarith
  have e1: "extends st ?s1" unfolding extends_def by (simp only: pushNode_simps) auto
  have n1: "nodesInGraph graph st \<longrightarrow> nodesInGraph graph ?s1"
    using Suc.prems(1) unfolding nodesInGraph_def by (simp only: pushNode_simps) auto
  have "\<exists>st2. (case map_of graph v of
              None \<Rightarrow> Some ?s1
            | Some edges \<Rightarrow> visitNeighbors (strongConnect d graph) v (neighborsOf edges) ?s1)
          = Some st2 \<and> extends ?s1 st2 \<and> (nodesInGraph graph ?s1 \<longrightarrow> nodesInGraph graph st2)"
  proof (cases "map_of graph v")
    case None
    then show ?thesis using extends_refl [of ?s1] by (simp only: option.case) blast
  next
    case (Some edges)
    from neighbors_in_graphNodes [OF Some] have sub: "set (neighborsOf edges) \<subseteq> ?N" .
    have rec: "\<exists>s'. strongConnect d graph w s = Some s' \<and> extends s s'
          \<and> (nodesInGraph graph s \<longrightarrow> nodesInGraph graph s')"
      if "w \<in> ?N" "ts_indices s w = None" "card (?N - dom (ts_indices s)) \<le> d" for w s
      using Suc.IH [OF that] by blast
    from visitNeighbors_total [where recurse = "strongConnect d graph" and N = ?N and d = d
        and graph = graph, OF rec finite_graphNodes sub c1]
    show ?thesis using Some by (simp only: option.case)
  qed
  then obtain st2 where st2: "(case map_of graph v of
              None \<Rightarrow> Some ?s1
            | Some edges \<Rightarrow> visitNeighbors (strongConnect d graph) v (neighborsOf edges) ?s1)
          = Some st2" and e2: "extends ?s1 st2"
    and n2: "nodesInGraph graph ?s1 \<longrightarrow> nodesInGraph graph st2" by blast
  from e2 obtain zs where zs: "ts_stack st2 = zs @ v # ts_stack st"
    and d2: "dom (ts_indices ?s1) \<subseteq> dom (ts_indices st2)"
    unfolding extends_def by (simp only: pushNode_simps) blast
  from popComponent_total [OF zs, of graph] obtain st' where
    p: "popComponent v st2 = Some st'" "ts_indices st' = ts_indices st2"
       "\<exists>ws. ts_stack st' = ws @ ts_stack st"
       "nodesInGraph graph st2 \<longrightarrow> nodesInGraph graph st'" by blast
  from e1 d2 have "dom (ts_indices st) \<subseteq> dom (ts_indices st')"
    unfolding extends_def p(2) by blast
  with p(3) have "extends st st'" unfolding extends_def by blast
  moreover from d2 have "ts_indices st' v \<noteq> None"
    unfolding p(2) by (simp only: pushNode_simps) auto
  moreover have "strongConnect (Suc d) graph v st = Some st'"
    by (simp only: strongConnect.simps st2 option.case p(1))
  ultimately show ?case
    using p(4) n1 n2 by blast
qed

lemma connectAll_total:
  "set ks \<subseteq> graphNodes graph \<Longrightarrow> card (graphNodes graph) \<le> d \<Longrightarrow>
   \<exists>st'. connectAll d graph ks st = Some st' \<and> extends st st'
      \<and> set ks \<subseteq> dom (ts_indices st')
      \<and> (nodesInGraph graph st \<longrightarrow> nodesInGraph graph st')"
proof (induction ks arbitrary: st)
  case Nil
  show ?case using extends_refl [of st] by simp
next
  case (Cons k ks)
  from Cons.prems(1) have kN: "k \<in> graphNodes graph" and ksN: "set ks \<subseteq> graphNodes graph"
    by simp_all
  show ?case
  proof (cases "ts_indices st k = None")
    case True
    have "card (graphNodes graph - dom (ts_indices st)) \<le> card (graphNodes graph)"
      using finite_graphNodes [of graph] by (intro card_mono) auto
    with Cons.prems(2) have "card (graphNodes graph - dom (ts_indices st)) \<le> d" by linarith
    from strongConnect_total [OF kN True this] obtain s1 where
      s1: "strongConnect d graph k st = Some s1" and e1: "extends st s1"
      and k1: "ts_indices s1 k \<noteq> None"
      and n1: "nodesInGraph graph st \<longrightarrow> nodesInGraph graph s1" by blast
    from Cons.IH [OF ksN Cons.prems(2), of s1] obtain st' where
      r: "connectAll d graph ks s1 = Some st'" and e': "extends s1 st'"
      and d': "set ks \<subseteq> dom (ts_indices st')"
      and n': "nodesInGraph graph s1 \<longrightarrow> nodesInGraph graph st'" by blast
    have "connectAll d graph (k # ks) st = Some st'"
      using True s1 r by simp
    moreover from k1 e' have "k \<in> dom (ts_indices st')" unfolding extends_def by blast
    moreover note extends_trans [OF e1 e']
    ultimately show ?thesis using d' n1 n' by auto
  next
    case False
    from Cons.IH [OF ksN Cons.prems(2), of st] obtain st' where
      r: "connectAll d graph ks st = Some st'" and e': "extends st st'"
      and d': "set ks \<subseteq> dom (ts_indices st')"
      and n': "nodesInGraph graph st \<longrightarrow> nodesInGraph graph st'" by blast
    have "connectAll d graph (k # ks) st = Some st'"
      by (simp only: connectAll.simps False if_False r)
    moreover from False e' have "k \<in> dom (ts_indices st')" unfolding extends_def by blast
    ultimately show ?thesis using e' d' n' by auto
  qed
qed

lemma selfLoopInv_lowLinks [simp]:
  "selfLoopInv x (s\<lparr> ts_lowLinks := f \<rparr>) = selfLoopInv x s"
  by (simp add: selfLoopInv_def)

lemma visitNeighbors_inv:
  assumes rec: "\<And>w s s'. ts_indices s w = None \<Longrightarrow> P s \<Longrightarrow> recurse w s = Some s' \<Longrightarrow> P s'"
    and upd: "\<And>s f. P (s\<lparr> ts_lowLinks := f \<rparr>) = P s"
  shows "P st \<Longrightarrow> visitNeighbors recurse node nbrs st = Some st' \<Longrightarrow> P st'"
proof (induction nbrs arbitrary: st)
  case Nil
  then show ?case by simp
next
  case (Cons w rest)
  show ?case
  proof (cases "ts_indices st w = None")
    case True
    with Cons.prems(2) obtain s1 where s1: "recurse w st = Some s1"
      and r: "visitNeighbors recurse node rest
                (s1\<lparr> ts_lowLinks := (ts_lowLinks s1)
                       (node \<mapsto> min (the (ts_lowLinks s1 node)) (the (ts_lowLinks s1 w))) \<rparr>)
              = Some st'"
      by (auto split: option.splits)
    from rec [OF True Cons.prems(1) s1] have "P s1" .
    then have "P (s1\<lparr> ts_lowLinks := (ts_lowLinks s1)
                       (node \<mapsto> min (the (ts_lowLinks s1 node)) (the (ts_lowLinks s1 w))) \<rparr>)"
      by (simp only: upd)
    from Cons.IH [OF this r] show ?thesis .
  next
    case False
    show ?thesis
    proof (cases "w \<in> ts_onStack st")
      case True
      with False Cons.prems(2) have r: "visitNeighbors recurse node rest
             (st\<lparr> ts_lowLinks := (ts_lowLinks st)
                    (node \<mapsto> min (the (ts_lowLinks st node)) (the (ts_indices st w))) \<rparr>) = Some st'"
        by (simp only: visitNeighbors.simps if_False if_True)
      from Cons.prems(1) have "P (st\<lparr> ts_lowLinks := (ts_lowLinks st)
                    (node \<mapsto> min (the (ts_lowLinks st node)) (the (ts_indices st w))) \<rparr>)"
        by (simp only: upd)
      from Cons.IH [OF this r] show ?thesis .
    next
      case notOn: False
      with False Cons.prems(2) have r: "visitNeighbors recurse node rest st = Some st'"
        by (simp only: visitNeighbors.simps if_False)
      from Cons.IH [OF Cons.prems(1) r] show ?thesis .
    qed
  qed
qed

lemma popComponent_selfLoop:
  assumes "v \<noteq> x" and "selfLoopInv x st" and "popComponent v st = Some st'"
  shows "selfLoopInv x st'"
proof (cases "ts_lowLinks st v = ts_indices st v")
  case False
  with assms show ?thesis by (simp add: popComponent_def)
next
  case True
  with assms(3) obtain s' on' scc where
    p: "popUntil v (ts_stack st) (ts_onStack st) [] = Some (s', on', scc)"
    and st': "st' = st\<lparr> ts_stack := s', ts_onStack := on', ts_sccs := ts_sccs st @ [scc] \<rparr>"
    by (auto simp: popComponent_def split: option.splits)
  from popUntil_SomeD [OF p] obtain pre where
    pre: "ts_stack st = pre @ v # s'" "scc = pre @ [v]" by auto
  from assms(2) pre have "x \<notin> set s'" "x \<notin> set scc"
    by (auto simp: selfLoopInv_def)
  with assms(2) show ?thesis
    unfolding st' by (simp add: selfLoopInv_def)
qed

lemma strongConnect_selfLoop:
  assumes g: "map_of graph x = Some [(linkType, [x])]"
  shows "strongConnect d graph v st = Some st' \<Longrightarrow> ts_indices st v = None \<Longrightarrow>
         selfLoopInv x st \<Longrightarrow> selfLoopInv x st'"
proof (induction d arbitrary: v st st')
  case 0
  then show ?case by simp
next
  case (Suc d)
  show ?case
  proof (cases "v = x")
    case True
    have "strongConnect (Suc d) graph x st
        = Some ((pushNode x st)\<lparr> ts_lowLinks := (ts_lowLinks st)(x \<mapsto> ts_index st),
               ts_stack := ts_stack st, ts_onStack := insert x (ts_onStack st) - {x},
               ts_sccs := ts_sccs st @ [[x]] \<rparr>)"
      by (simp add: g neighborsOf_def set_add_all_def set_add_def pushNode_def popComponent_def)
    with Suc.prems(1) True have "st' = (pushNode x st)\<lparr> ts_lowLinks := (ts_lowLinks st)(x \<mapsto> ts_index st),
               ts_stack := ts_stack st, ts_onStack := insert x (ts_onStack st) - {x},
               ts_sccs := ts_sccs st @ [[x]] \<rparr>" by simp
    with Suc.prems(2,3) True show ?thesis
      by (simp add: selfLoopInv_def)
  next
    case False
    have i1: "selfLoopInv x (pushNode v st)"
      using Suc.prems(3) False by (simp add: selfLoopInv_def)
    from Suc.prems(1) obtain st2 where
      st2: "(case map_of graph v of
              None \<Rightarrow> Some (pushNode v st)
            | Some edges \<Rightarrow> visitNeighbors (strongConnect d graph) v (neighborsOf edges)
                 (pushNode v st)) = Some st2"
      and p: "popComponent v st2 = Some st'"
      by (auto split: option.splits)
    have "selfLoopInv x st2"
    proof (cases "map_of graph v")
      case None
      with st2 i1 show ?thesis by simp
    next
      case (Some edges)
      with st2 have v: "visitNeighbors (strongConnect d graph) v (neighborsOf edges) (pushNode v st)
          = Some st2" by simp
      show ?thesis
        by (rule visitNeighbors_inv [where P = "selfLoopInv x", OF _ _ i1 v])
           (auto intro: Suc.IH)
    qed
    from popComponent_selfLoop [OF False this p] show ?thesis .
  qed
qed

lemma connectAll_selfLoop:
  assumes g: "map_of graph x = Some [(linkType, [x])]"
  shows "connectAll d graph ks st = Some st' \<Longrightarrow> selfLoopInv x st \<Longrightarrow> selfLoopInv x st'"
proof (induction ks arbitrary: st)
  case Nil
  then show ?case by simp
next
  case (Cons k ks)
  show ?case
  proof (cases "ts_indices st k = None")
    case True
    with Cons.prems(1) obtain s1 where s1: "strongConnect d graph k st = Some s1"
      and r: "connectAll d graph ks s1 = Some st'"
      by (auto split: option.splits)
    from strongConnect_selfLoop [OF g s1 True Cons.prems(2)] have "selfLoopInv x s1" .
    from Cons.IH [OF r this] show ?thesis .
  next
    case False
    with Cons.prems(1) have "connectAll d graph ks st = Some st'"
      by (simp only: connectAll.simps if_False)
    from Cons.IH [OF this Cons.prems(2)] show ?thesis .
  qed
qed

lemma enterNode_simps [simp]:
  "ps_visited (enterNode node st) = insert node (ps_visited st)"
  "ps_path (enterNode node st) = ps_path st @ [node]"
  by (simp_all add: enterNode_def)

lemma pathGrows_refl: "pathGrows scc st st"
  by (simp add: pathGrows_def)

lemma pathGrows_trans: "pathGrows scc a b \<Longrightarrow> pathGrows scc b c \<Longrightarrow> pathGrows scc a c"
  unfolding pathGrows_def by blast

lemma dfsNeighbors_total:
  assumes rec: "\<And>w s. w \<in> set scc \<Longrightarrow> w \<notin> ps_visited s \<Longrightarrow> card (set scc - ps_visited s) \<le> d \<Longrightarrow>
             \<exists>b s'. recurse w s = Some (b, s') \<and> pathGrows scc s s'"
  shows "card (set scc - ps_visited st) \<le> d \<Longrightarrow>
         \<exists>b st'. dfsNeighbors recurse scc target nbrs st = Some (b, st') \<and> pathGrows scc st st'"
proof (induction nbrs arbitrary: st)
  case Nil
  show ?case using pathGrows_refl [of scc st] by auto
next
  case (Cons w rest)
  show ?case
  proof (cases "w \<notin> set scc")
    case True
    with Cons.IH [OF Cons.prems] show ?thesis by simp
  next
    case inScc: False
    show ?thesis
    proof (cases "w = target \<and> length (ps_path st) > 1")
      case True
      have "pathGrows scc st (st\<lparr> ps_path := ps_path st @ [w] \<rparr>)"
        using inScc by (simp add: pathGrows_def)
      with True inScc show ?thesis by auto
    next
      case notTarget: False
      show ?thesis
      proof (cases "w \<notin> ps_visited st")
        case True
        from inScc have wS: "w \<in> set scc" by simp
        from rec [OF wS True Cons.prems] obtain b s' where
          r: "recurse w st = Some (b, s')" and g: "pathGrows scc st s'" by blast
        show ?thesis
        proof (cases b)
          case True
          with r g inScc notTarget \<open>w \<notin> ps_visited st\<close> show ?thesis by auto
        next
          case False
          from g have "set scc - ps_visited s' \<subseteq> set scc - ps_visited st"
            unfolding pathGrows_def by blast
          then have "card (set scc - ps_visited s') \<le> card (set scc - ps_visited st)"
            by (intro card_mono) simp_all
          with Cons.prems have "card (set scc - ps_visited s') \<le> d" by linarith
          from Cons.IH [OF this] obtain b' st' where
            r': "dfsNeighbors recurse scc target rest s' = Some (b', st')"
            and g': "pathGrows scc s' st'" by blast
          have "dfsNeighbors recurse scc target (w # rest) st = Some (b', st')"
            using False r r' inScc notTarget \<open>w \<notin> ps_visited st\<close> by auto
          with pathGrows_trans [OF g g'] show ?thesis by blast
        qed
      next
        case False
        with Cons.IH [OF Cons.prems] inScc notTarget show ?thesis by auto
      qed
    qed
  qed
qed

lemma dfs_total:
  "node \<in> set scc \<Longrightarrow> node \<notin> ps_visited st \<Longrightarrow> card (set scc - ps_visited st) \<le> d \<Longrightarrow>
   \<exists>b st'. dfs d graph scc target node st = Some (b, st') \<and> pathGrows scc st st'"
proof (induction d arbitrary: node st)
  case 0
  from 0(1,2) have "node \<in> set scc - ps_visited st" by blast
  then have "card (set scc - ps_visited st) \<noteq> 0"
    by (simp only: card_eq_0_iff) auto
  with 0(3) show ?case by simp
next
  case (Suc d)
  let ?s1 = "enterNode node st"
  have "set scc - ps_visited ?s1 = (set scc - ps_visited st) - {node}" by auto
  moreover from Suc.prems(1,2) have "node \<in> set scc - ps_visited st" by blast
  ultimately have "card (set scc - ps_visited ?s1) = card (set scc - ps_visited st) - 1"
    by (simp only: card_Diff_singleton)
  with Suc.prems(3) have c1: "card (set scc - ps_visited ?s1) \<le> d" by linarith
  have g1: "pathGrows scc st ?s1" using Suc.prems(1) by (auto simp: pathGrows_def)
  have "\<exists>b st2. (case map_of graph node of
              None \<Rightarrow> Some (False, ?s1)
            | Some edges \<Rightarrow>
                dfsNeighbors (dfs d graph scc target) scc target (neighborsOf edges) ?s1)
          = Some (b, st2) \<and> pathGrows scc ?s1 st2"
  proof (cases "map_of graph node")
    case None
    then show ?thesis using pathGrows_refl [of scc ?s1] by auto
  next
    case (Some edges)
    from dfsNeighbors_total [where recurse = "dfs d graph scc target" and scc = scc and d = d,
        OF Suc.IH c1]
    show ?thesis using Some by simp
  qed
  then obtain b st2 where r: "(case map_of graph node of
              None \<Rightarrow> Some (False, ?s1)
            | Some edges \<Rightarrow>
                dfsNeighbors (dfs d graph scc target) scc target (neighborsOf edges) ?s1)
          = Some (b, st2)" and g2: "pathGrows scc ?s1 st2" by blast
  note g = pathGrows_trans [OF g1 g2]
  show ?case
  proof (cases b)
    case True
    with r have "dfs (Suc d) graph scc target node st = Some (True, st2)" by simp
    with g show ?thesis by blast
  next
    case False
    with r have "dfs (Suc d) graph scc target node st
        = Some (False, st2\<lparr> ps_path := butlast (ps_path st2) \<rparr>)" by simp
    moreover have "pathGrows scc st (st2\<lparr> ps_path := butlast (ps_path st2) \<rparr>)"
      using g by (auto simp: pathGrows_def dest: in_set_butlastD)
    ultimately show ?thesis by blast
  qed
qed

lemma findCyclePath_total:
  assumes "card (set scc) \<le> d"
  shows "\<exists>cycle. findCyclePath d scc graph = Some cycle \<and> set cycle \<subseteq> set scc"
proof (cases scc)
  case Nil
  then show ?thesis by (simp add: findCyclePath_def)
next
  case (Cons startNode rest)
  let ?s0 = "\<lparr> ps_visited = {}, ps_path = [] \<rparr>"
  have "startNode \<in> set scc" "startNode \<notin> ps_visited ?s0" "card (set scc - ps_visited ?s0) \<le> d"
    using Cons assms by simp_all
  from dfs_total [OF this] obtain b st' where
    r: "dfs d graph scc startNode startNode ?s0 = Some (b, st')" and g: "pathGrows scc ?s0 st'"
    by blast
  from g have "set (ps_path st') \<subseteq> set scc" by (simp add: pathGrows_def)
  with r Cons show ?thesis by (simp add: findCyclePath_def)
qed

lemma map_set_fresh: "k \<notin> fst ` set m \<Longrightarrow> map_set m k v = m @ [(k, v)]"
  by (induction m) auto

lemma foldl_map_set:
  "distinct (map req_id rs) \<Longrightarrow> req_id ` set rs \<inter> fst ` set acc = {} \<Longrightarrow>
   foldl (\<lambda>graph req. map_set graph (req_id req) (links req)) acc rs
     = acc @ map (\<lambda>r. (req_id r, links r)) rs"
proof (induction rs arbitrary: acc)
  case Nil
  then show ?case by simp
next
  case (Cons r rs)
  from Cons.prems(2) have fresh: "req_id r \<notin> fst ` set acc" by auto
  have "req_id ` set rs \<inter> fst ` set (acc @ [(req_id r, links r)]) = {}"
    using Cons.prems by auto
  from Cons.IH [OF _ this] Cons.prems(1) show ?case
    by (simp add: map_set_fresh [OF fresh])
qed

lemma buildGraph_distinct:
  "distinct (map req_id rs) \<Longrightarrow> buildGraph rs = map (\<lambda>r. (req_id r, links r)) rs"
  unfolding buildGraph_def using foldl_map_set [of rs "[]"] by simp

lemma buildGraph_lookup:
  assumes "distinct (map req_id rs)" and "r \<in> set rs"
  shows "map_of (buildGraph rs) (req_id r) = Some (links r)"
proof -
  have "distinct (map fst (map (\<lambda>r. (req_id r, links r)) rs))"
    using assms(1) by (simp add: comp_def)
  moreover have "(req_id r, links r) \<in> set (map (\<lambda>r. (req_id r, links r)) rs)"
    using assms(2) by auto
  ultimately show ?thesis
    unfolding buildGraph_distinct [OF assms(1)] by (rule map_of_is_SomeI)
qed

lemma set_neighborsOf: "set (neighborsOf edges) = set (concat (map snd edges))"
  by (simp add: neighborsOf_def set_set_add_all)

lemma card_graphNodes:
  assumes "distinct (map req_id rs)"
  shows "card (graphNodes (buildGraph rs))
           \<le> length rs + length (concat (map getAllOutgoingLinks rs))"
proof -
  have "graphNodes (buildGraph rs)
      = req_id ` set rs \<union> set (concat (map getAllOutgoingLinks rs))"
    unfolding buildGraph_distinct [OF assms] graphNodes_def
    by (auto simp: set_neighborsOf getAllOutgoingLinks_def)
  moreover have "card (req_id ` set rs \<union> set (concat (map getAllOutgoingLinks rs)))
      \<le> card (req_id ` set rs) + card (set (concat (map getAllOutgoingLinks rs)))"
    by (rule card_Un_le)
  moreover have "card (req_id ` set rs) \<le> length rs"
    by (metis card_image_le card_length le_trans List.finite_set)
  moreover have "card (set (concat (map getAllOutgoingLinks rs)))
      \<le> length (concat (map getAllOutgoingLinks rs))"
    by (rule card_length)
  ultimately show ?thesis by simp
qed

lemma collectAll_count:
  assumes "\<forall>s \<in> set xs. \<exists>cs. f s = Some cs \<and> filter P cs = (if Q s then [e] else [])"
  shows "\<exists>ys. collectAll f xs = Some ys \<and> filter P ys = replicate (length (filter Q xs)) e"
  using assms
proof (induction xs)
  case Nil
  then show ?case by simp
next
  case (Cons s xs)
  from Cons.prems obtain cs where cs: "f s = Some cs" "filter P cs = (if Q s then [e] else [])"
    by auto
  from Cons.IH Cons.prems obtain ys where
    ys: "collectAll f xs = Some ys" "filter P ys = replicate (length (filter Q xs)) e"
    by auto
  from cs ys show ?case by simp
qed

lemma sccCycles_self:
  assumes "map_of graph x = Some [(linkType, [x])]"
  shows "sccCycles d graph config [x]
     = Some [\<lparr> cd_cycle = [x, x], cd_length = 1, cd_severity = HIGH, cd_linkTypes = [linkType] \<rparr>]"
  using assms by (simp add: sccCycles_def)

lemma sccCycles_other:
  assumes "x \<notin> set scc" and "card (set scc) \<le> d"
  shows "\<exists>cs. sccCycles d graph config scc = Some cs \<and> (\<forall>c \<in> set cs. x \<notin> set (cd_cycle c))"
proof (cases "length scc > 1")
  case True
  from findCyclePath_total [OF assms(2), of graph] obtain cycle where
    "findCyclePath d scc graph = Some cycle" "set cycle \<subseteq> set scc" by blast
  with True assms(1) show ?thesis by (auto simp: sccCycles_def)
next
  case False
  show ?thesis
  proof (cases scc)
    case Nil
    then show ?thesis by (simp add: sccCycles_def)
  next
    case (Cons node rest)
    with False have "scc = [node]" by simp
    with assms(1) show ?thesis
      by (auto simp: sccCycles_def Let_def split: option.splits)
  qed
qed


text \<open>
  C4. In a record list with pairwise distinct ids, a record whose one link, of one link
  type, points to the record itself is reported in exactly one cycle: \<open>[id, id]\<close>, of
  length 1 and severity HIGH, with that link type, whatever the other records and the
  configuration are. The detector returns a result for every recursion bound from the
  number of records plus the number of links on.
\<close>

theorem self_loop_reported:
  assumes "distinct (map req_id requirements)" and "r \<in> set requirements"
    and "links r = [(linkType, [req_id r])]"
    and "length requirements + length (concat (map getAllOutgoingLinks requirements)) \<le> depth"
  shows "\<exists>cycles. detectCircularDependencies depth requirements config = Some cycles
     \<and> filter (\<lambda>c. req_id r \<in> set (cd_cycle c)) cycles
       = [\<lparr> cd_cycle = [req_id r, req_id r], cd_length = 1, cd_severity = HIGH,
             cd_linkTypes = [linkType] \<rparr>]"
proof -
  let ?g = "buildGraph requirements"
  let ?x = "req_id r"
  let ?e = "\<lparr> cd_cycle = [?x, ?x], cd_length = 1, cd_severity = HIGH, cd_linkTypes = [linkType] \<rparr>"
  from card_graphNodes [OF assms(1)] assms(4) have bound: "card (graphNodes ?g) \<le> depth"
    by linarith
  from buildGraph_lookup [OF assms(1,2)] assms(3)
  have gx: "map_of ?g ?x = Some [(linkType, [?x])]" by simp
  have i0: "selfLoopInv ?x initialTarjanState" "nodesInGraph ?g initialTarjanState"
    by (simp_all add: selfLoopInv_def nodesInGraph_def initialTarjanState_def)
  from connectAll_total [OF keys_in_graphNodes bound, of initialTarjanState] i0(2)
  obtain st where st: "connectAll depth ?g (map fst ?g) initialTarjanState = Some st"
    and dom: "set (map fst ?g) \<subseteq> dom (ts_indices st)" and nodes: "nodesInGraph ?g st"
    by blast
  from connectAll_selfLoop [OF gx st i0(1)] have inv: "selfLoopInv ?x st" .
  from gx have "?x \<in> set (map fst ?g)"
    by (metis map_of_eq_None_iff option.distinct(1) set_map)
  with dom have "ts_indices st ?x \<noteq> None" by blast
  with inv have one: "length (filter (\<lambda>scc. ?x \<in> set scc) (ts_sccs st)) = 1"
    and self: "\<forall>scc \<in> set (ts_sccs st). ?x \<in> set scc \<longrightarrow> scc = [?x]"
    by (simp_all add: selfLoopInv_def)
  have each: "\<forall>scc \<in> set (ts_sccs st). \<exists>cs. sccCycles depth ?g config scc = Some cs
      \<and> filter (\<lambda>c. ?x \<in> set (cd_cycle c)) cs = (if ?x \<in> set scc then [?e] else [])"
  proof
    fix scc assume m: "scc \<in> set (ts_sccs st)"
    show "\<exists>cs. sccCycles depth ?g config scc = Some cs
      \<and> filter (\<lambda>c. ?x \<in> set (cd_cycle c)) cs = (if ?x \<in> set scc then [?e] else [])"
    proof (cases "?x \<in> set scc")
      case True
      with self m have "scc = [?x]" by blast
      with sccCycles_self [OF gx, of depth config] True show ?thesis by simp
    next
      case False
      from nodes m have "set scc \<subseteq> graphNodes ?g" by (simp add: nodesInGraph_def)
      then have "card (set scc) \<le> card (graphNodes ?g)"
        by (intro card_mono finite_graphNodes)
      with bound have "card (set scc) \<le> depth" by linarith
      from sccCycles_other [OF False this, of ?g config] obtain cs where
        "sccCycles depth ?g config scc = Some cs" "\<forall>c \<in> set cs. ?x \<notin> set (cd_cycle c)" by blast
      with False show ?thesis by (simp add: filter_empty_conv)
    qed
  qed
  from collectAll_count [OF each] one obtain cycles where
    "collectAll (sccCycles depth ?g config) (ts_sccs st) = Some cycles"
    "filter (\<lambda>c. ?x \<in> set (cd_cycle c)) cycles = [?e]"
    by auto
  with st show ?thesis
    by (simp add: detectCircularDependencies_def findStronglyConnectedComponents_def)
qed

theorem self_loop_reported_witness:
  "distinct (map req_id [selfX, exA, exB, exC]) \<and> selfX \<in> set [selfX, exA, exB, exC]
   \<and> links selfX = [(''links'', [req_id selfX])]
   \<and> length [selfX, exA, exB, exC]
       + length (concat (map getAllOutgoingLinks [selfX, exA, exB, exC])) \<le> 7
   \<and> detectCircularDependencies 7 [selfX, exA, exB, exC] sampleConfig
     = Some [\<lparr> cd_cycle = [''REQ001'', ''REQ001''], cd_length = 1, cd_severity = HIGH,
               cd_linkTypes = [''links''] \<rparr>]"
proof -
  let ?rs = "[selfX, exA, exB, exC]"
  have h1: "distinct (map req_id ?rs)" and h2: "selfX \<in> set ?rs"
    and h3: "links selfX = [(''links'', [req_id selfX])]"
    and h4: "length ?rs + length (concat (map getAllOutgoingLinks ?rs)) \<le> 7"
    by (simp_all add: selfX_def exA_def exB_def exC_def mkReq_def getAllOutgoingLinks_def)
  from self_loop_reported [OF h1 h2 h3 h4, of sampleConfig] obtain cycles where
    c: "detectCircularDependencies 7 ?rs sampleConfig = Some cycles"
    and f: "filter (\<lambda>c. req_id selfX \<in> set (cd_cycle c)) cycles
       = [\<lparr> cd_cycle = [req_id selfX, req_id selfX], cd_length = 1, cd_severity = HIGH,
             cd_linkTypes = [''links''] \<rparr>]" by blast
  have v: "detectCircularDependencies 7 ?rs sampleConfig
     = Some [\<lparr> cd_cycle = [''REQ001'', ''REQ001''], cd_length = 1, cd_severity = HIGH,
               cd_linkTypes = [''links''] \<rparr>]"
    by code_simp
  from c f v h1 h2 h3 h4 show ?thesis by simp
qed

end
